theory Spec2Isabelle
  imports Main "HOL-Library.Multiset"
begin

section \<open>Data model: nodes, references and the tree object\<close>

text \<open>
  Embedding of \<^verbatim>\<open>src/ds/tree/avl.py\<close>. A Python reference to a node object is an
  address; \<^verbatim>\<open>None\<close> is \<open>None\<close>. The objects live in a store that maps every address
  to the fields of the node at that address. The fields \<^verbatim>\<open>key\<close>, \<^verbatim>\<open>left\<close>,
  \<^verbatim>\<open>right\<close>, \<^verbatim>\<open>parent\<close>, \<^verbatim>\<open>count\<close> and \<^verbatim>\<open>weight\<close> are inherited from
  \<^verbatim>\<open>bst.Node\<close>; \<^verbatim>\<open>_height\<close> is added by \<^verbatim>\<open>avl.Node\<close>. Node objects are taken to be
  truthy, as plain Python objects are.
\<close>

type_synonym addr = nat

record node =
  key :: int
  left :: "addr option"
  right :: "addr option"
  parent :: "addr option"
  count :: int
  weight :: int
  height :: int

type_synonym store = "addr \<Rightarrow> node"

record avl_tree =
  heap :: store
  root :: "addr option"

datatype error = AttributeError

section \<open>Node: heights, predicates, update\<close>

definition left_height :: "store \<Rightarrow> addr \<Rightarrow> int" where
  "left_height h n = (case left (h n) of None \<Rightarrow> - 1 | Some l \<Rightarrow> height (h l))"

definition right_height :: "store \<Rightarrow> addr \<Rightarrow> int" where
  "right_height h n = (case right (h n) of None \<Rightarrow> - 1 | Some r \<Rightarrow> height (h r))"

definition is_heavy :: "store \<Rightarrow> addr \<Rightarrow> bool" where
  "is_heavy h n = (\<bar>left_height h n - right_height h n\<bar> > 1)"

definition is_left_heavy :: "store \<Rightarrow> addr \<Rightarrow> int \<Rightarrow> bool" where
  "is_left_heavy h n diff = (left_height h n - right_height h n > diff)"

definition is_right_heavy :: "store \<Rightarrow> addr \<Rightarrow> int \<Rightarrow> bool" where
  "is_right_heavy h n diff = (right_height h n - left_height h n > diff)"

text \<open>
  Modelled from the spec: \<^verbatim>\<open>bst.Node.left_weight\<close> and \<^verbatim>\<open>right_weight\<close> are not in
  the sources; the weight of a child, an absent child contributing 0.
\<close>

definition left_weight :: "store \<Rightarrow> addr \<Rightarrow> int" where
  "left_weight h n = (case left (h n) of None \<Rightarrow> 0 | Some l \<Rightarrow> weight (h l))"

definition right_weight :: "store \<Rightarrow> addr \<Rightarrow> int" where
  "right_weight h n = (case right (h n) of None \<Rightarrow> 0 | Some r \<Rightarrow> weight (h r))"

definition update :: "store \<Rightarrow> addr \<Rightarrow> store" where
  "update h n = h(n := (h n)\<lparr>weight := count (h n) + left_weight h n + right_weight h n,
                            height := 1 + max (left_height h n) (right_height h n)\<rparr>)"

text \<open>
  Modelled from the spec: the property setters of \<^verbatim>\<open>bst.Node\<close> for \<^verbatim>\<open>left\<close> and
  \<^verbatim>\<open>right\<close> are not in the sources. Setting a child also sets that child's parent
  back-link; assigning \<^verbatim>\<open>None\<close> only clears the slot.
\<close>

definition set_left :: "store \<Rightarrow> addr \<Rightarrow> addr option \<Rightarrow> store" where
  "set_left h n c =
     (let h1 = h(n := (h n)\<lparr>left := c\<rparr>)
      in case c of None \<Rightarrow> h1 | Some a \<Rightarrow> h1(a := (h1 a)\<lparr>parent := Some n\<rparr>))"

definition set_right :: "store \<Rightarrow> addr \<Rightarrow> addr option \<Rightarrow> store" where
  "set_right h n c =
     (let h1 = h(n := (h n)\<lparr>right := c\<rparr>)
      in case c of None \<Rightarrow> h1 | Some a \<Rightarrow> h1(a := (h1 a)\<lparr>parent := Some n\<rparr>))"

definition set_parent :: "store \<Rightarrow> addr \<Rightarrow> addr option \<Rightarrow> store" where
  "set_parent h n p = h(n := (h n)\<lparr>parent := p\<rparr>)"

text \<open>
  Modelled from the spec: \<^verbatim>\<open>bst.Node.add_child\<close> is not in the sources. It attaches
  \<open>x\<close> as the left or the right child of \<open>p\<close> depending on which side its key compares
  to. Keys are unique in a tree, so the case of equal keys does not arise there; the
  model sends it to the right.
\<close>

definition add_child :: "store \<Rightarrow> addr \<Rightarrow> addr \<Rightarrow> store" where
  "add_child h p x =
     (if key (h x) < key (h p) then set_left h p (Some x) else set_right h p (Some x))"

section \<open>AVLTree: rotations, balance, the update walk, is_balanced\<close>

definition rotate_left :: "avl_tree \<Rightarrow> addr \<Rightarrow> addr option \<Rightarrow> error + avl_tree" where
  "rotate_left s n heavy_child =
     (case heavy_child of
        None \<Rightarrow> Inl AttributeError
      | Some hc \<Rightarrow>
          let par = parent (heap s n);
              h1 = set_right (heap s) n (left (heap s hc));
              h2 = update h1 n;
              h3 = set_parent h2 hc par;
              h4 = set_left h3 hc (Some n);
              h5 = update h4 hc
          in (case par of
                Some p \<Rightarrow> Inr (s\<lparr>heap := add_child h5 p hc\<rparr>)
              | None \<Rightarrow> Inr (s\<lparr>heap := h5, root := Some hc\<rparr>)))"

definition rotate_right :: "avl_tree \<Rightarrow> addr \<Rightarrow> addr option \<Rightarrow> error + avl_tree" where
  "rotate_right s n heavy_child =
     (case heavy_child of
        None \<Rightarrow> Inl AttributeError
      | Some hc \<Rightarrow>
          let par = parent (heap s n);
              h1 = set_left (heap s) n (right (heap s hc));
              h2 = update h1 n;
              h3 = set_parent h2 hc par;
              h4 = set_right h3 hc (Some n);
              h5 = update h4 hc
          in (case par of
                Some p \<Rightarrow> Inr (s\<lparr>heap := add_child h5 p hc\<rparr>)
              | None \<Rightarrow> Inr (s\<lparr>heap := h5, root := Some hc\<rparr>)))"

text \<open>
  The \<^verbatim>\<open>if\<close>/\<^verbatim>\<open>elif\<close> block of \<^verbatim>\<open>_balance\<close>: the rotations at \<open>n\<close>. Reading a field
  of an absent child raises \<^verbatim>\<open>AttributeError\<close>.
\<close>

definition balance_rotations :: "avl_tree \<Rightarrow> addr \<Rightarrow> error + avl_tree" where
  "balance_rotations s n =
     (if is_left_heavy (heap s) n 1 then
        (case left (heap s n) of
           None \<Rightarrow> Inl AttributeError
         | Some l \<Rightarrow>
             (case (if is_right_heavy (heap s) l 0
                    then rotate_left s l (right (heap s l)) else Inr s) of
                Inl e \<Rightarrow> Inl e
              | Inr s1 \<Rightarrow> rotate_right s1 n (left (heap s1 n))))
      else if is_right_heavy (heap s) n 1 then
        (case right (heap s n) of
           None \<Rightarrow> Inl AttributeError
         | Some r \<Rightarrow>
             (case (if is_left_heavy (heap s) r 0
                    then rotate_right s r (left (heap s r)) else Inr s) of
                Inl e \<Rightarrow> Inl e
              | Inr s1 \<Rightarrow> rotate_left s1 n (right (heap s1 n))))
      else Inr s)"

text \<open>
  \<^verbatim>\<open>_balance\<close> recurses along the parent links, which need not end in a store that
  is not a tree; not returning is the value \<open>None\<close>.
\<close>

partial_function (option) balance :: "avl_tree \<Rightarrow> addr \<Rightarrow> (error + avl_tree) option" where
  "balance s n =
     (let par = parent (heap s n)
      in case balance_rotations s n of
           Inl e \<Rightarrow> Some (Inl e)
         | Inr s' \<Rightarrow> (case par of None \<Rightarrow> Some (Inr s') | Some p \<Rightarrow> balance s' p))"

text \<open>\<^verbatim>\<open>AVLTree._update\<close>: the walk from the edit point to the root.\<close>

partial_function (option) tree_update :: "avl_tree \<Rightarrow> addr option \<Rightarrow> (error + avl_tree) option" where
  "tree_update s node =
     (case node of
        None \<Rightarrow> Some (Inr s)
      | Some n \<Rightarrow>
          (case balance (s\<lparr>heap := update (heap s) n\<rparr>) n of
             None \<Rightarrow> None
           | Some (Inl e) \<Rightarrow> Some (Inl e)
           | Some (Inr s') \<Rightarrow> tree_update s' (parent (heap s' n))))"

partial_function (option) is_balanced :: "avl_tree \<Rightarrow> addr option \<Rightarrow> (error + bool) option" where
  "is_balanced s node =
     (case (case node of None \<Rightarrow> root s | Some n \<Rightarrow> Some n) of
        None \<Rightarrow> Some (Inl AttributeError)
      | Some n \<Rightarrow>
          Option.bind
            (if \<not> is_heavy (heap s) n \<and> left (heap s n) \<noteq> None
             then is_balanced s (left (heap s n))
             else Some (Inr (\<not> is_heavy (heap s) n)))
            (\<lambda>r1. case r1 of
                Inl e \<Rightarrow> Some (Inl e)
              | Inr b1 \<Rightarrow>
                  if b1 \<and> right (heap s n) \<noteq> None
                  then is_balanced s (right (heap s n))
                  else Some (Inr b1)))"

declare balance.simps [code]
declare tree_update.simps [code]
declare is_balanced.simps [code]

text \<open>
  The invocations of \<^verbatim>\<open>_balance\<close> made by one call of \<^verbatim>\<open>_balance\<close>, and by one call
  of \<^verbatim>\<open>_update\<close>, in the order they are entered, each with the state it is entered in.
  They follow the recursion of \<open>balance\<close> and the loop of \<open>tree_update\<close>, and log.
\<close>

partial_function (option) balance_trace :: "avl_tree \<Rightarrow> addr \<Rightarrow> (avl_tree \<times> addr) list option" where
  "balance_trace s n =
     (let par = parent (heap s n)
      in case balance_rotations s n of
           Inl e \<Rightarrow> Some [(s, n)]
         | Inr s' \<Rightarrow>
             (case par of
                None \<Rightarrow> Some [(s, n)]
              | Some p \<Rightarrow> Option.bind (balance_trace s' p) (\<lambda>t. Some ((s, n) # t))))"

partial_function (option) update_trace :: "avl_tree \<Rightarrow> addr option \<Rightarrow> (avl_tree \<times> addr) list option" where
  "update_trace s node =
     (case node of
        None \<Rightarrow> Some []
      | Some n \<Rightarrow>
          Option.bind (balance_trace (s\<lparr>heap := update (heap s) n\<rparr>) n) (\<lambda>t1.
            case balance (s\<lparr>heap := update (heap s) n\<rparr>) n of
              None \<Rightarrow> None
            | Some (Inl e) \<Rightarrow> Some t1
            | Some (Inr s') \<Rightarrow>
                Option.bind (update_trace s' (parent (heap s' n))) (\<lambda>t2. Some (t1 @ t2))))"

declare balance_trace.simps [code]
declare update_trace.simps [code]

section \<open>The ordered-tree collaborator: node creation and insert\<close>

text \<open>
  Modelled from the spec: \<^verbatim>\<open>bst.Node.__init__\<close> is not in the sources. A new node has
  no links and count 1; \<^verbatim>\<open>avl.Node.__init__\<close> sets its height to 0. The weight of a
  new node is taken to be its count.
\<close>

definition create_node :: "int \<Rightarrow> node" where
  "create_node k =
     \<lparr>key = k, left = None, right = None, parent = None, count = 1, weight = 1, height = 0\<rparr>"

text \<open>
  Modelled from the spec: the tree object of \<^verbatim>\<open>bst.BinarySearchTree\<close> starts with an
  absent root.
\<close>

definition empty_tree :: avl_tree where
  "empty_tree = \<lparr>heap = (\<lambda>_. create_node 0), root = None\<rparr>"

text \<open>
  Modelled from the spec: \<^verbatim>\<open>bst.BinarySearchTree.insert\<close> is not in the sources. The
  ordered insert creates a node through the \<^verbatim>\<open>create_node\<close> factory, descends from the
  root by key comparison to the node with a free slot on the side of the key, attaches
  the new leaf there with \<^verbatim>\<open>add_child\<close>, and ends with the walk \<^verbatim>\<open>_update\<close> from the
  new leaf. The address \<open>a\<close> is the identity of the object that \<^verbatim>\<open>create_node\<close>
  returns. The spec assumes unique keys and does not say what happens to a key that is
  already present; the descent of the model compares it as \<^verbatim>\<open>add_child\<close> does.
\<close>

partial_function (option) find_parent :: "store \<Rightarrow> addr \<Rightarrow> int \<Rightarrow> addr option" where
  "find_parent h p k =
     (if k < key (h p)
      then (case left (h p) of None \<Rightarrow> Some p | Some l \<Rightarrow> find_parent h l k)
      else (case right (h p) of None \<Rightarrow> Some p | Some r \<Rightarrow> find_parent h r k))"

declare find_parent.simps [code]

definition attach_leaf :: "avl_tree \<Rightarrow> addr \<Rightarrow> int \<Rightarrow> avl_tree option" where
  "attach_leaf s a k =
     (let h0 = (heap s)(a := create_node k)
      in case root s of
           None \<Rightarrow> Some (s\<lparr>heap := h0, root := Some a\<rparr>)
         | Some r \<Rightarrow>
             (case find_parent h0 r k of
                None \<Rightarrow> None
              | Some p \<Rightarrow> Some (s\<lparr>heap := add_child h0 p a\<rparr>)))"

definition insert_key :: "avl_tree \<Rightarrow> addr \<Rightarrow> int \<Rightarrow> (error + avl_tree) option" where
  "insert_key s a k =
     (case attach_leaf s a k of
        None \<Rightarrow> None
      | Some s1 \<Rightarrow> tree_update s1 (Some a))"

section \<open>Notions used to state the properties\<close>

text \<open>Every stored height is at least 0, as the height of a subtree is.\<close>

definition heights_nonneg :: "store \<Rightarrow> bool" where
  "heights_nonneg h = (\<forall>a. 0 \<le> height (h a))"

text \<open>The stored height of \<open>n\<close> is current: what \<^verbatim>\<open>update\<close> would store now.\<close>

definition current :: "store \<Rightarrow> addr \<Rightarrow> bool" where
  "current h n = (height (h n) = 1 + max (left_height h n) (right_height h n))"

text \<open>
  The branch of the \<^verbatim>\<open>if\<close>/\<^verbatim>\<open>elif\<close> block of \<^verbatim>\<open>_balance\<close> that the tests select
  at \<open>n\<close>: a right rotation at \<open>n\<close>, the left-right double rotation (left at
  \<^verbatim>\<open>n.left\<close>, then right at \<open>n\<close>), their mirror images, or none. (Where the heavy
  child is absent the call raises; the classification there is that of the outer test.)
\<close>

datatype rotation = NoRotation | RotateRight | LeftRight | RotateLeft | RightLeft

definition rotation_case :: "store \<Rightarrow> addr \<Rightarrow> rotation" where
  "rotation_case h n =
     (if is_left_heavy h n 1 then
        (case left (h n) of
           None \<Rightarrow> RotateRight
         | Some l \<Rightarrow> if is_right_heavy h l 0 then LeftRight else RotateRight)
      else if is_right_heavy h n 1 then
        (case right (h n) of
           None \<Rightarrow> RotateLeft
         | Some r \<Rightarrow> if is_left_heavy h r 0 then RightLeft else RotateLeft)
      else NoRotation)"

text \<open>
  The rotations as the specification words them, step by step: the child that moves
  across, \<^verbatim>\<open>node.update()\<close>, the parent of the heavy child, the heavy child's new
  child, \<^verbatim>\<open>heavy_child.update()\<close>, and the reattachment.
\<close>

definition reattach :: "avl_tree \<Rightarrow> addr option \<Rightarrow> addr \<Rightarrow> avl_tree" where
  "reattach s original_parent hc =
     (case original_parent of
        Some p \<Rightarrow> s\<lparr>heap := add_child (heap s) p hc\<rparr>
      | None \<Rightarrow> s\<lparr>root := Some hc\<rparr>)"

definition rotate_left_steps :: "avl_tree \<Rightarrow> addr \<Rightarrow> addr \<Rightarrow> avl_tree" where
  "rotate_left_steps s n hc =
     (let original_parent = parent (heap s n);
          s1 = s\<lparr>heap := set_right (heap s) n (left (heap s hc))\<rparr>;
          s2 = s1\<lparr>heap := update (heap s1) n\<rparr>;
          s3 = s2\<lparr>heap := set_parent (heap s2) hc original_parent\<rparr>;
          s4 = s3\<lparr>heap := set_left (heap s3) hc (Some n)\<rparr>;
          s5 = s4\<lparr>heap := update (heap s4) hc\<rparr>
      in reattach s5 original_parent hc)"

definition rotate_right_steps :: "avl_tree \<Rightarrow> addr \<Rightarrow> addr \<Rightarrow> avl_tree" where
  "rotate_right_steps s n hc =
     (let original_parent = parent (heap s n);
          s1 = s\<lparr>heap := set_left (heap s) n (right (heap s hc))\<rparr>;
          s2 = s1\<lparr>heap := update (heap s1) n\<rparr>;
          s3 = s2\<lparr>heap := set_parent (heap s2) hc original_parent\<rparr>;
          s4 = s3\<lparr>heap := set_right (heap s3) hc (Some n)\<rparr>;
          s5 = s4\<lparr>heap := update (heap s4) hc\<rparr>
      in reattach s5 original_parent hc)"

text \<open>
  The mirror image of a tree: in every node the two child slots are exchanged, and the
  order of the keys is reversed, so that \<^verbatim>\<open>add_child\<close> picks the opposite side.
\<close>

definition mirror_node :: "node \<Rightarrow> node" where
  "mirror_node v = v\<lparr>left := right v, right := left v, key := - key v\<rparr>"

definition mirror :: "avl_tree \<Rightarrow> avl_tree" where
  "mirror s = s\<lparr>heap := (\<lambda>a. mirror_node (heap s a))\<rparr>"

text \<open>
  A tree of seven nodes in the middle of a walk: the node with key 20 (address 1) has
  lost its left child and is right-heavy; its right child 40 (address 2) has the
  children 30 (address 3) and 50 (address 4); its parent is the root 10 (address 0).
\<close>

definition mk_node :: "int \<Rightarrow> addr option \<Rightarrow> addr option \<Rightarrow> addr option \<Rightarrow> int \<Rightarrow> int \<Rightarrow> node" where
  "mk_node k l r p w ht =
     \<lparr>key = k, left = l, right = r, parent = p, count = 1, weight = w, height = ht\<rparr>"

definition rotation_example :: avl_tree where
  "rotation_example =
     \<lparr>heap = (\<lambda>_. create_node 0)
        (0 := mk_node 10 (Some 5) (Some 1) None 8 3,
         1 := mk_node 20 None (Some 2) (Some 0) 4 2,
         2 := mk_node 40 (Some 3) (Some 4) (Some 1) 3 1,
         3 := mk_node 30 None None (Some 2) 1 0,
         4 := mk_node 50 None None (Some 2) 1 0,
         5 := mk_node 5 (Some 6) None (Some 0) 2 1,
         6 := mk_node 3 None None (Some 5) 1 0),
      root = Some 0\<rparr>"

text \<open>
  What a trace shows of an invocation of \<^verbatim>\<open>_balance\<close>: the key of the node, and the
  rotation the tests select there; or the key of the node, whether its own stored height
  is current, and whether the stored heights of its children, which the tests read, are.
\<close>

definition rotations_of :: "(avl_tree \<times> addr) list \<Rightarrow> (int \<times> rotation) list" where
  "rotations_of t = map (\<lambda>(s, n). (key (heap s n), rotation_case (heap s) n)) t"

definition children_current :: "store \<Rightarrow> addr \<Rightarrow> bool" where
  "children_current h n =
     ((case left (h n) of None \<Rightarrow> True | Some l \<Rightarrow> current h l)
      \<and> (case right (h n) of None \<Rightarrow> True | Some r \<Rightarrow> current h r))"

definition currency_of :: "(avl_tree \<times> addr) list \<Rightarrow> (int \<times> bool \<times> bool) list" where
  "currency_of t =
     map (\<lambda>(s, n). (key (heap s n), current (heap s) n, children_current (heap s) n)) t"

text \<open>
  A sequence of inserts, each with the address of the node it creates; the trace of the
  walk of one insert; and what is seen of a tree at given addresses.
\<close>

fun insert_keys :: "avl_tree \<Rightarrow> (addr \<times> int) list \<Rightarrow> (error + avl_tree) option" where
  "insert_keys s [] = Some (Inr s)"
| "insert_keys s ((a, k) # xs) =
     (case insert_key s a k of
        Some (Inr s') \<Rightarrow> insert_keys s' xs
      | r \<Rightarrow> r)"

definition insert_trace :: "avl_tree \<Rightarrow> addr \<Rightarrow> int \<Rightarrow> (avl_tree \<times> addr) list option" where
  "insert_trace s a k =
     (case attach_leaf s a k of
        None \<Rightarrow> None
      | Some s1 \<Rightarrow> update_trace s1 (Some a))"

definition after_inserts ::
  "(addr \<times> int) list \<Rightarrow> (avl_tree \<Rightarrow> 'a option) \<Rightarrow> 'a option" where
  "after_inserts xs f =
     (case insert_keys empty_tree xs of Some (Inr s) \<Rightarrow> f s | _ \<Rightarrow> None)"

definition view :: "addr list \<Rightarrow> avl_tree \<Rightarrow> (addr option \<times> node list) option" where
  "view as s = Some (root s, map (heap s) as)"

section \<open>Trees in the store\<close>

text \<open>
  The shape of a tree of node objects: which address is the root and which shapes hang
  to its left and right. \<open>rep h par t\<close> says that the links of the store \<open>h\<close> realise
  the shape \<open>t\<close> below a node (or the tree object) \<open>par\<close>: parent links, child slots
  and absent children are as the shape says. \<open>wf_tree s t\<close> adds that the root of the
  tree object is the root of the shape and that the keys increase strictly in order.
\<close>

datatype shape = Tip | Fork shape addr shape

fun nodes :: "shape \<Rightarrow> addr list" where
  "nodes Tip = []"
| "nodes (Fork l a r) = nodes l @ a # nodes r"

fun top :: "shape \<Rightarrow> addr option" where
  "top Tip = None"
| "top (Fork l a r) = Some a"

fun rep :: "store \<Rightarrow> addr option \<Rightarrow> shape \<Rightarrow> bool" where
  "rep h par Tip = True"
| "rep h par (Fork l a r) =
     (parent (h a) = par \<and> left (h a) = top l \<and> right (h a) = top r
      \<and> rep h (Some a) l \<and> rep h (Some a) r)"

definition keys_of :: "store \<Rightarrow> shape \<Rightarrow> int list" where
  "keys_of h t = map (\<lambda>a. key (h a)) (nodes t)"

definition wf_tree :: "avl_tree \<Rightarrow> shape \<Rightarrow> bool" where
  "wf_tree s t = (root s = top t \<and> rep (heap s) None t \<and> sorted_wrt (<) (keys_of (heap s) t))"

text \<open>
  A position in a tree: the frames from a subtree up to the root, innermost first. A
  frame records the node above the hole and the sibling of the hole.
\<close>

datatype frame = LeftOf addr shape | RightOf shape addr

fun plug :: "shape \<Rightarrow> frame list \<Rightarrow> shape" where
  "plug t [] = t"
| "plug t (LeftOf a r # fs) = plug (Fork t a r) fs"
| "plug t (RightOf l a # fs) = plug (Fork l a t) fs"

fun frame_node :: "frame \<Rightarrow> addr" where
  "frame_node (LeftOf a r) = a"
| "frame_node (RightOf l a) = a"

fun hole_parent :: "frame list \<Rightarrow> addr option" where
  "hole_parent [] = None"
| "hole_parent (f # fs) = Some (frame_node f)"

fun before :: "frame list \<Rightarrow> addr list" where
  "before [] = []"
| "before (LeftOf a r # fs) = before fs"
| "before (RightOf l a # fs) = before fs @ nodes l @ [a]"

fun after :: "frame list \<Rightarrow> addr list" where
  "after [] = []"
| "after (LeftOf a r # fs) = a # nodes r @ after fs"
| "after (RightOf l a # fs) = after fs"

fun ctx_rep :: "store \<Rightarrow> frame list \<Rightarrow> addr option \<Rightarrow> bool" where
  "ctx_rep h [] p = True"
| "ctx_rep h (LeftOf a r # fs) p =
     (left (h a) = p \<and> right (h a) = top r \<and> parent (h a) = hole_parent fs
      \<and> rep h (Some a) r \<and> ctx_rep h fs (Some a))"
| "ctx_rep h (RightOf l a # fs) p =
     (left (h a) = top l \<and> right (h a) = p \<and> parent (h a) = hole_parent fs
      \<and> rep h (Some a) l \<and> ctx_rep h fs (Some a))"

definition links_eq :: "store \<Rightarrow> store \<Rightarrow> addr \<Rightarrow> bool" where
  "links_eq h h' x =
     (left (h' x) = left (h x) \<and> right (h' x) = right (h x) \<and> parent (h' x) = parent (h x))"

text \<open>
  The bookkeeping of the node \<open>a\<close> is exact: its stored height and weight are what
  \<^verbatim>\<open>update\<close> computes from its children now.
\<close>

definition exact_at :: "store \<Rightarrow> addr \<Rightarrow> bool" where
  "exact_at h a =
     (height (h a) = 1 + max (left_height h a) (right_height h a)
      \<and> weight (h a) = count (h a) + left_weight h a + right_weight h a)"

text \<open>
  The height of a shape (an absent child counts \<open>-1\<close>), the balance condition at every
  node, and the stored height and weight at the top of a shape as a parent reads them.
  \<open>exact h t\<close> says that every node of \<open>t\<close> stores the height and weight that
  \<^verbatim>\<open>update\<close> computes from its children.
\<close>

fun ht :: "shape \<Rightarrow> int" where
  "ht Tip = - 1"
| "ht (Fork l a r) = 1 + max (ht l) (ht r)"

fun avl :: "shape \<Rightarrow> bool" where
  "avl Tip = True"
| "avl (Fork l a r) = (avl l \<and> avl r \<and> \<bar>ht l - ht r\<bar> \<le> 1)"

definition stored_height :: "store \<Rightarrow> shape \<Rightarrow> int" where
  "stored_height h t = (case top t of None \<Rightarrow> - 1 | Some a \<Rightarrow> height (h a))"

definition stored_weight :: "store \<Rightarrow> shape \<Rightarrow> int" where
  "stored_weight h t = (case top t of None \<Rightarrow> 0 | Some a \<Rightarrow> weight (h a))"

fun exact_top :: "store \<Rightarrow> shape \<Rightarrow> bool" where
  "exact_top h Tip = True"
| "exact_top h (Fork l a r) =
     (height (h a) = 1 + max (stored_height h l) (stored_height h r)
      \<and> weight (h a) = count (h a) + stored_weight h l + stored_weight h r)"

fun exact :: "store \<Rightarrow> shape \<Rightarrow> bool" where
  "exact h Tip = True"
| "exact h (Fork l a r) = (exact h l \<and> exact h r \<and> exact_top h (Fork l a r))"

text \<open>The shape after the rotations of one of the five cases of \<^verbatim>\<open>_balance\<close>.\<close>

fun rotated :: "rotation \<Rightarrow> shape \<Rightarrow> shape" where
  "rotated RotateRight (Fork (Fork ll a lr) n r) = Fork ll a (Fork lr n r)"
| "rotated LeftRight (Fork (Fork ll a (Fork lrl b lrr)) n r) =
     Fork (Fork ll a lrl) b (Fork lrr n r)"
| "rotated RotateLeft (Fork l n (Fork rl c rr)) = Fork (Fork l n rl) c rr"
| "rotated RightLeft (Fork l n (Fork (Fork rll b rlr) c rr)) =
     Fork (Fork l n rll) b (Fork rlr c rr)"
| "rotated k t = t"

text \<open>Height, weight, key and count of the nodes outside \<open>X\<close> are the same in both stores.\<close>

definition same_data :: "store \<Rightarrow> store \<Rightarrow> addr set \<Rightarrow> bool" where
  "same_data h h' X =
     (\<forall>x. key (h' x) = key (h x) \<and> count (h' x) = count (h x)
        \<and> (x \<notin> X \<longrightarrow> height (h' x) = height (h x) \<and> weight (h' x) = weight (h x)))"

section \<open>The state during the walk\<close>

text \<open>
  The rotation that the tests of \<^verbatim>\<open>_balance\<close> select at the top of a shape when the
  stored heights of its subtrees are their heights.
\<close>

fun shape_case :: "shape \<Rightarrow> rotation" where
  "shape_case Tip = NoRotation"
| "shape_case (Fork l n r) =
     (if ht l - ht r > 1 then
        (case l of
           Tip \<Rightarrow> RotateRight
         | Fork ll a lr \<Rightarrow> if ht lr - ht ll > 0 then LeftRight else RotateRight)
      else if ht r - ht l > 1 then
        (case r of
           Tip \<Rightarrow> RotateLeft
         | Fork rl c rr \<Rightarrow> if ht rl - ht rr > 0 then RightLeft else RotateLeft)
      else NoRotation)"

text \<open>
  After a structural edit below a position, the nodes above it still store the heights
  they had before: \<open>ctx_ok h g fs\<close> says that the stored heights of the nodes of the
  frames \<open>fs\<close> are exact and balanced for a subtree of height \<open>g\<close> in the hole, and that
  the siblings are balanced with exact bookkeeping. \<open>edit_ok hl hr g\<close> relates the
  heights of the two subtrees of the edited node to the height \<open>g\<close> that its position
  had before the edit. \<open>above_ok h e fs\<close> is the state above a subtree of height \<open>e\<close>
  that has been repaired: the next node up is balanced, its stored height is off by at
  most one, and from there on \<open>ctx_ok\<close> holds.
\<close>

fun ctx_ok :: "store \<Rightarrow> int \<Rightarrow> frame list \<Rightarrow> bool" where
  "ctx_ok h g [] = True"
| "ctx_ok h g (LeftOf a sib # fs) =
     (avl sib \<and> exact h sib \<and> \<bar>g - ht sib\<bar> \<le> 1 \<and> height (h a) = 1 + max g (ht sib)
      \<and> ctx_ok h (height (h a)) fs)"
| "ctx_ok h g (RightOf sib a # fs) =
     (avl sib \<and> exact h sib \<and> \<bar>g - ht sib\<bar> \<le> 1 \<and> height (h a) = 1 + max g (ht sib)
      \<and> ctx_ok h (height (h a)) fs)"

definition edit_ok :: "int \<Rightarrow> int \<Rightarrow> int \<Rightarrow> bool" where
  "edit_ok hl hr g =
     ((\<bar>hl - hr\<bar> \<le> 1 \<and> \<bar>1 + max hl hr - g\<bar> \<le> 1)
      \<or> (\<bar>hl - hr\<bar> = 2 \<and> (1 + max hl hr = g \<or> 1 + max hl hr = g + 1)))"

fun above_ok :: "store \<Rightarrow> int \<Rightarrow> frame list \<Rightarrow> bool" where
  "above_ok h e [] = True"
| "above_ok h e (LeftOf a sib # fs) =
     (avl sib \<and> exact h sib \<and> \<bar>e - ht sib\<bar> \<le> 1
      \<and> \<bar>1 + max e (ht sib) - height (h a)\<bar> \<le> 1 \<and> ctx_ok h (height (h a)) fs)"
| "above_ok h e (RightOf sib a # fs) =
     (avl sib \<and> exact h sib \<and> \<bar>e - ht sib\<bar> \<le> 1
      \<and> \<bar>1 + max e (ht sib) - height (h a)\<bar> \<le> 1 \<and> ctx_ok h (height (h a)) fs)"

text \<open>
  \<open>calm h c fs\<close>: read with the stored heights, no node of the frames \<open>fs\<close> is heavy,
  the subtree in the hole storing the height \<open>c\<close>.
\<close>

fun calm :: "store \<Rightarrow> int \<Rightarrow> frame list \<Rightarrow> bool" where
  "calm h c [] = True"
| "calm h c (LeftOf a sib # fs) =
     (\<bar>c - stored_height h sib\<bar> \<le> 1 \<and> calm h (height (h a)) fs)"
| "calm h c (RightOf sib a # fs) =
     (\<bar>c - stored_height h sib\<bar> \<le> 1 \<and> calm h (height (h a)) fs)"

text \<open>
  The invariant of the tree between operations: the store holds a tree whose keys
  increase strictly, that is balanced at every node and whose bookkeeping is exact.
\<close>

definition avl_state :: "avl_tree \<Rightarrow> shape \<Rightarrow> bool" where
  "avl_state s t = (wf_tree s t \<and> avl t \<and> exact (heap s) t \<and> heights_nonneg (heap s))"

definition walk_ok :: "avl_tree \<Rightarrow> addr option \<Rightarrow> bool" where
  "walk_ok s node = (\<exists>s' t'. tree_update s node = Some (Inr s') \<and> avl_state s' t')"

section \<open>Delete, and the states a tree goes through\<close>

text \<open>
  Modelled from the spec: \<^verbatim>\<open>bst.BinarySearchTree.delete\<close> is not in the sources. The
  spec says that delete removes the key by a splice-out (of the node holding the key, or,
  when that node has two children, of its in-order successor or predecessor, which
  stands in for it), that the bookkeeping is the business of the walk, and that the walk
  \<^verbatim>\<open>_update\<close> starts at the parent of the spliced node. \<open>splice_out s t k s1 node\<close>
  describes the state \<open>s1\<close> that such a splice of the key \<open>k\<close> leaves from the state
  \<open>s\<close> with the tree \<open>t\<close>: a node \<open>y\<close> with at most one child has been taken out of
  the tree and its child \<open>c\<close> stands in its slot; the links realise the new shape; the
  keys are those of \<open>t\<close> without \<open>k\<close>, in order; no stored height, weight or count
  has been touched; and \<open>node\<close> is the parent that \<open>y\<close> had.
\<close>

definition splice_out :: "avl_tree \<Rightarrow> shape \<Rightarrow> int \<Rightarrow> avl_tree \<Rightarrow> addr option \<Rightarrow> bool" where
  "splice_out s t k s1 node =
     (\<exists>y c fs. (t = plug (Fork Tip y c) fs \<or> t = plug (Fork c y Tip) fs)
        \<and> node = hole_parent fs
        \<and> wf_tree s1 (plug c fs)
        \<and> k \<in> set (keys_of (heap s) t)
        \<and> set (keys_of (heap s1) (plug c fs)) = set (keys_of (heap s) t) - {k}
        \<and> (\<forall>x. height (heap s1 x) = height (heap s x)
               \<and> weight (heap s1 x) = weight (heap s x)
               \<and> count (heap s1 x) = count (heap s x)))"

text \<open>
  The states of a tree object: it starts empty; \<^verbatim>\<open>insert\<close> adds a key that is not
  in the tree, in a new node object; \<^verbatim>\<open>delete\<close> splices a key out and runs the walk.
\<close>

inductive reachable :: "avl_tree \<Rightarrow> bool" where
  start: "reachable empty_tree"
| insert: "reachable s \<Longrightarrow> wf_tree s t \<Longrightarrow> a \<notin> set (nodes t)
             \<Longrightarrow> k \<notin> set (keys_of (heap s) t)
             \<Longrightarrow> insert_key s a k = Some (Inr s') \<Longrightarrow> reachable s'"
| delete: "reachable s \<Longrightarrow> wf_tree s t \<Longrightarrow> splice_out s t k s1 node
             \<Longrightarrow> tree_update s1 node = Some (Inr s') \<Longrightarrow> reachable s'"

text \<open>The total count stored in a shape: what the weight of its top node should be.\<close>

fun total_count :: "store \<Rightarrow> shape \<Rightarrow> int" where
  "total_count h Tip = 0"
| "total_count h (Fork l a r) = count (h a) + total_count h l + total_count h r"

text \<open>The tree after inserting the key 10 into the empty tree, in the node at address 0.\<close>

definition one_key_tree :: avl_tree where
  "one_key_tree = (case insert_key empty_tree 0 10 of Some (Inr s) \<Rightarrow> s | _ \<Rightarrow> empty_tree)"

text \<open>
  The tree after inserting the keys of a list into the empty tree, each in the node at
  the address given with it.
\<close>

definition grown :: "(addr \<times> int) list \<Rightarrow> avl_tree" where
  "grown xs = (case insert_keys empty_tree xs of Some (Inr s) \<Rightarrow> s | _ \<Rightarrow> empty_tree)"

definition four_key_tree :: avl_tree where
  "four_key_tree = grown [(0, 10), (1, 20), (2, 30), (3, 40)]"

text \<open>
  Modelled from the spec: \<^verbatim>\<open>delete(10)\<close> on the tree of 10, 20, 30, 40. The node
  of 10 (address 0) is a leaf, the left child of the root 20 (address 1); the splice
  takes it out of the left slot of its parent, and the walk starts at that parent.
\<close>

definition spliced_tree :: avl_tree where
  "spliced_tree =
     four_key_tree\<lparr>heap := (heap four_key_tree)(1 := (heap four_key_tree 1)\<lparr>left := None\<rparr>)\<rparr>"

definition after_delete :: avl_tree where
  "after_delete =
     (case tree_update spliced_tree (Some 1) of Some (Inr s) \<Rightarrow> s | _ \<Rightarrow> empty_tree)"


section \<open>Field-wise effect of the primitive operations\<close>

lemma set_left_fields:
  "left (set_left h n c x) = (if x = n then c else left (h x))"
  "right (set_left h n c x) = right (h x)"
  "parent (set_left h n c x) = (if c = Some x then Some n else parent (h x))"
  "key (set_left h n c x) = key (h x)"
  "count (set_left h n c x) = count (h x)"
  "weight (set_left h n c x) = weight (h x)"
  "height (set_left h n c x) = height (h x)"
  "node.more (set_left h n c x) = node.more (h x)"
  by (simp_all add: set_left_def Let_def split: option.split)

lemma set_right_fields:
  "left (set_right h n c x) = left (h x)"
  "right (set_right h n c x) = (if x = n then c else right (h x))"
  "parent (set_right h n c x) = (if c = Some x then Some n else parent (h x))"
  "key (set_right h n c x) = key (h x)"
  "count (set_right h n c x) = count (h x)"
  "weight (set_right h n c x) = weight (h x)"
  "height (set_right h n c x) = height (h x)"
  "node.more (set_right h n c x) = node.more (h x)"
  by (simp_all add: set_right_def Let_def split: option.split)

lemma set_parent_fields:
  "left (set_parent h n p x) = left (h x)"
  "right (set_parent h n p x) = right (h x)"
  "parent (set_parent h n p x) = (if x = n then p else parent (h x))"
  "key (set_parent h n p x) = key (h x)"
  "count (set_parent h n p x) = count (h x)"
  "weight (set_parent h n p x) = weight (h x)"
  "height (set_parent h n p x) = height (h x)"
  "node.more (set_parent h n p x) = node.more (h x)"
  by (simp_all add: set_parent_def)

lemma update_fields:
  "left (update h n x) = left (h x)"
  "right (update h n x) = right (h x)"
  "parent (update h n x) = parent (h x)"
  "key (update h n x) = key (h x)"
  "count (update h n x) = count (h x)"
  "weight (update h n x) =
     (if x = n then count (h n) + left_weight h n + right_weight h n else weight (h x))"
  "height (update h n x) =
     (if x = n then 1 + max (left_height h n) (right_height h n) else height (h x))"
  "node.more (update h n x) = node.more (h x)"
  by (simp_all add: update_def)

lemma add_child_fields:
  "left (add_child h p c x) = (if x = p \<and> key (h c) < key (h p) then Some c else left (h x))"
  "right (add_child h p c x) =
     (if x = p \<and> \<not> key (h c) < key (h p) then Some c else right (h x))"
  "parent (add_child h p c x) = (if x = c then Some p else parent (h x))"
  "key (add_child h p c x) = key (h x)"
  "count (add_child h p c x) = count (h x)"
  "weight (add_child h p c x) = weight (h x)"
  "height (add_child h p c x) = height (h x)"
  "node.more (add_child h p c x) = node.more (h x)"
  by (auto simp: add_child_def set_left_fields set_right_fields)

lemmas prim_fields =
  set_left_fields set_right_fields set_parent_fields update_fields add_child_fields

lemma rotate_left_Some:
  "rotate_left s n (Some c) = Inr (rotate_left_steps s n c)"
  by (simp add: rotate_left_def rotate_left_steps_def reattach_def Let_def split: option.split)

lemma rotate_right_Some:
  "rotate_right s n (Some c) = Inr (rotate_right_steps s n c)"
  by (simp add: rotate_right_def rotate_right_steps_def reattach_def Let_def split: option.split)

lemma rotate_left_steps_frame:
  "x \<noteq> n \<Longrightarrow> x \<noteq> c \<Longrightarrow> Some x \<noteq> parent (heap s n) \<Longrightarrow> Some x \<noteq> left (heap s c)
     \<Longrightarrow> heap (rotate_left_steps s n c) x = heap s x"
  by (intro node.equality)
     (auto simp: rotate_left_steps_def reattach_def prim_fields Let_def split: option.splits)

lemma rotate_right_steps_frame:
  "x \<noteq> n \<Longrightarrow> x \<noteq> c \<Longrightarrow> Some x \<noteq> parent (heap s n) \<Longrightarrow> Some x \<noteq> right (heap s c)
     \<Longrightarrow> heap (rotate_right_steps s n c) x = heap s x"
  by (intro node.equality)
     (auto simp: rotate_right_steps_def reattach_def prim_fields Let_def split: option.splits)

lemma rotate_left_steps_data:
  "key (heap (rotate_left_steps s n c) x) = key (heap s x)"
  "count (heap (rotate_left_steps s n c) x) = count (heap s x)"
  "x \<noteq> n \<Longrightarrow> x \<noteq> c \<Longrightarrow> height (heap (rotate_left_steps s n c) x) = height (heap s x)"
  "x \<noteq> n \<Longrightarrow> x \<noteq> c \<Longrightarrow> weight (heap (rotate_left_steps s n c) x) = weight (heap s x)"
  by (auto simp: rotate_left_steps_def reattach_def prim_fields Let_def split: option.splits)

lemma rotate_right_steps_data:
  "key (heap (rotate_right_steps s n c) x) = key (heap s x)"
  "count (heap (rotate_right_steps s n c) x) = count (heap s x)"
  "x \<noteq> n \<Longrightarrow> x \<noteq> c \<Longrightarrow> height (heap (rotate_right_steps s n c) x) = height (heap s x)"
  "x \<noteq> n \<Longrightarrow> x \<noteq> c \<Longrightarrow> weight (heap (rotate_right_steps s n c) x) = weight (heap s x)"
  by (auto simp: rotate_right_steps_def reattach_def prim_fields Let_def split: option.splits)

section \<open>What a rotation writes\<close>

text \<open>
  Claim C8, as amended. A single rotation writes the link fields of at most four nodes:
  the rotated node, the heavy child, the original parent (when there is one) and the
  child of the heavy child that moves across (when there is one; the child setter
  re-points its parent link to the rotated node). It writes the height and weight of the
  rotated node and of the heavy child only, and the key and count of no node. Every
  other node is unchanged.
\<close>

theorem rotation_frame:
  "(rotate_left s n (Some c) = Inr s' \<longrightarrow>
      (\<forall>x. (x \<noteq> n \<and> x \<noteq> c \<and> Some x \<noteq> parent (heap s n) \<and> Some x \<noteq> left (heap s c)
              \<longrightarrow> heap s' x = heap s x)
          \<and> (x \<noteq> n \<and> x \<noteq> c
              \<longrightarrow> height (heap s' x) = height (heap s x) \<and> weight (heap s' x) = weight (heap s x))
          \<and> key (heap s' x) = key (heap s x) \<and> count (heap s' x) = count (heap s x)))
   \<and> (rotate_right s n (Some c) = Inr s' \<longrightarrow>
      (\<forall>x. (x \<noteq> n \<and> x \<noteq> c \<and> Some x \<noteq> parent (heap s n) \<and> Some x \<noteq> right (heap s c)
              \<longrightarrow> heap s' x = heap s x)
          \<and> (x \<noteq> n \<and> x \<noteq> c
              \<longrightarrow> height (heap s' x) = height (heap s x) \<and> weight (heap s' x) = weight (heap s x))
          \<and> key (heap s' x) = key (heap s x) \<and> count (heap s' x) = count (heap s x)))"
  by (auto simp: rotate_left_Some rotate_right_Some rotate_left_steps_frame
      rotate_right_steps_frame rotate_left_steps_data rotate_right_steps_data)

lemmas ex_simps = rotation_example_def mk_node_def create_node_def rotate_left_steps_def
  rotate_right_steps_def reattach_def prim_fields Let_def
  left_height_def right_height_def left_weight_def right_weight_def

text \<open>
  The claim as stated (exactly three nodes have their link fields modified: the rotated
  node, the heavy child and the original parent) fails on the seven-node example: the
  left rotation at the node 20 (address 1, parent 0) with heavy child 40 (address 2)
  re-points the parent link of the node 30 (address 3) from 40 to 20.
\<close>

theorem rotation_touches_fourth_node:
  "rotate_left rotation_example 1 (Some 2) = Inr (rotate_left_steps rotation_example 1 2)
   \<and> parent (heap rotation_example 1) = Some 0
   \<and> parent (heap rotation_example 3) = Some 2
   \<and> parent (heap (rotate_left_steps rotation_example 1 2) 3) = Some 1"
  by (simp add: rotate_left_Some) (simp add: ex_simps)


theorem rotation_frame_witness:
  "rotate_left rotation_example 1 (Some 2) = Inr (rotate_left_steps rotation_example 1 2)
   \<and> heap (rotate_left_steps rotation_example 1 2) 4 = heap rotation_example 4
   \<and> height (heap (rotate_left_steps rotation_example 1 2) 3) = height (heap rotation_example 3)
   \<and> rotate_right rotation_example 0 (Some 5) = Inr (rotate_right_steps rotation_example 0 5)
   \<and> heap (rotate_right_steps rotation_example 0 5) 4 = heap rotation_example 4
   \<and> height (heap (rotate_right_steps rotation_example 0 5) 6) = height (heap rotation_example 6)"
proof -
  have L: "rotate_left rotation_example 1 (Some 2) = Inr (rotate_left_steps rotation_example 1 2)"
    by (simp add: rotate_left_Some)
  have R: "rotate_right rotation_example 0 (Some 5) = Inr (rotate_right_steps rotation_example 0 5)"
    by (simp add: rotate_right_Some)
  have l4: "heap (rotate_left_steps rotation_example 1 2) 4 = heap rotation_example 4"
    using rotation_frame [THEN conjunct1, THEN mp, OF L, THEN spec, of 4]
    by (simp add: rotation_example_def mk_node_def)
  have l3: "height (heap (rotate_left_steps rotation_example 1 2) 3) = height (heap rotation_example 3)"
    using rotation_frame [THEN conjunct1, THEN mp, OF L, THEN spec, of 3] by simp
  have r4: "heap (rotate_right_steps rotation_example 0 5) 4 = heap rotation_example 4"
    using rotation_frame [THEN conjunct2, THEN mp, OF R, THEN spec, of 4]
    by (simp add: rotation_example_def mk_node_def)
  have r6: "height (heap (rotate_right_steps rotation_example 0 5) 6) = height (heap rotation_example 6)"
    using rotation_frame [THEN conjunct2, THEN mp, OF R, THEN spec, of 6] by simp
  from L R l4 l3 r4 r6 show ?thesis by blast
qed

section \<open>The rotations step by step, and as mirror images\<close>

lemma mirror_fields:
  "left (heap (mirror s) x) = right (heap s x)"
  "right (heap (mirror s) x) = left (heap s x)"
  "parent (heap (mirror s) x) = parent (heap s x)"
  "key (heap (mirror s) x) = - key (heap s x)"
  "count (heap (mirror s) x) = count (heap s x)"
  "weight (heap (mirror s) x) = weight (heap s x)"
  "height (heap (mirror s) x) = height (heap s x)"
  "node.more (heap (mirror s) x) = node.more (heap s x)"
  "root (mirror s) = root s"
  by (simp_all add: mirror_def mirror_node_def)

lemma mirror_heights:
  "left_height (heap (mirror s)) x = right_height (heap s) x"
  "right_height (heap (mirror s)) x = left_height (heap s) x"
  "left_weight (heap (mirror s)) x = right_weight (heap s) x"
  "right_weight (heap (mirror s)) x = left_weight (heap s) x"
  by (simp_all add: left_height_def right_height_def left_weight_def right_weight_def mirror_fields split: option.split)

lemma avl_tree_eqI:
  fixes s t :: avl_tree
  shows "root s = root t \<Longrightarrow> (\<And>x. heap s x = heap t x) \<Longrightarrow> s = t"
  by (cases s, cases t) auto

lemma rotate_right_mirror:
  assumes "\<And>p. parent (heap s n) = Some p \<Longrightarrow> key (heap s c) \<noteq> key (heap s p)"
  shows "rotate_right_steps s n c = mirror (rotate_left_steps (mirror s) n c)"
proof (rule avl_tree_eqI)
  show "root (rotate_right_steps s n c) = root (mirror (rotate_left_steps (mirror s) n c))"
    by (simp add: mirror_fields rotate_right_steps_def rotate_left_steps_def reattach_def Let_def
        split: option.split)
next
  fix x
  show "heap (rotate_right_steps s n c) x = heap (mirror (rotate_left_steps (mirror s) n c)) x"
    using assms
    by (intro node.equality)
       (auto simp: mirror_fields mirror_heights rotate_right_steps_def rotate_left_steps_def reattach_def Let_def prim_fields
        left_height_def right_height_def left_weight_def right_weight_def
        split: option.split)
qed

text \<open>
  Claim C3. \<^verbatim>\<open>_rotate_left(node, heavy_child)\<close> performs exactly the six steps, in
  order: \<^verbatim>\<open>node.right\<close> becomes \<^verbatim>\<open>heavy_child.left\<close>; \<^verbatim>\<open>node.update()\<close>; the parent
  of the heavy child becomes the original parent of the node; \<^verbatim>\<open>heavy_child.left\<close>
  becomes the node; \<^verbatim>\<open>heavy_child.update()\<close>; the original parent, if there is one,
  takes the heavy child through \<^verbatim>\<open>add_child\<close>, otherwise the heavy child becomes the
  root. \<^verbatim>\<open>_rotate_right\<close> performs the same steps with left and right exchanged, and is
  the mirror image of \<^verbatim>\<open>_rotate_left\<close>: rotating right is mirroring the tree, rotating
  left and mirroring back (the key of the heavy child differing from that of the parent,
  as the keys of a tree do).
\<close>

theorem rotations_step_by_step:
  "rotate_left s n (Some hc) = Inr (rotate_left_steps s n hc)
   \<and> rotate_right s n (Some hc) = Inr (rotate_right_steps s n hc)
   \<and> ((\<forall>p. parent (heap s n) = Some p \<longrightarrow> key (heap s hc) \<noteq> key (heap s p))
        \<longrightarrow> rotate_right s n (Some hc) = Inr (mirror (rotate_left_steps (mirror s) n hc)))"
  using rotate_right_mirror [of s n hc] by (simp add: rotate_left_Some rotate_right_Some)

theorem rotations_step_by_step_witness:
  "parent (heap rotation_example 1) = Some 0
   \<and> key (heap rotation_example 2) \<noteq> key (heap rotation_example 0)
   \<and> rotate_right rotation_example 1 (Some 2) =
       Inr (mirror (rotate_left_steps (mirror rotation_example) 1 2))"
proof -
  have p: "parent (heap rotation_example 1) = Some 0"
    by (simp add: rotation_example_def mk_node_def)
  have k: "key (heap rotation_example 2) \<noteq> key (heap rotation_example 0)"
    by (simp add: rotation_example_def mk_node_def)
  from p k have "\<forall>q. parent (heap rotation_example 1) = Some q
      \<longrightarrow> key (heap rotation_example 2) \<noteq> key (heap rotation_example q)"
    by simp
  with rotations_step_by_step [of rotation_example 1 2] p k show ?thesis by blast
qed

section \<open>_balance with non-negative stored heights: every child it reads is present\<close>

lemma child_height_ge:
  "heights_nonneg h \<Longrightarrow> - 1 \<le> left_height h n"
  "heights_nonneg h \<Longrightarrow> - 1 \<le> right_height h n"
  by (auto simp: heights_nonneg_def left_height_def right_height_def split: option.split
      intro: order_trans [of "- 1" 0])

lemma left_heavy_child:
  "heights_nonneg h \<Longrightarrow> is_left_heavy h n d \<Longrightarrow> 0 \<le> d \<Longrightarrow> left (h n) \<noteq> None"
  using child_height_ge(2) [of h n]
  by (cases "left (h n)") (auto simp: is_left_heavy_def left_height_def)

lemma right_heavy_child:
  "heights_nonneg h \<Longrightarrow> is_right_heavy h n d \<Longrightarrow> 0 \<le> d \<Longrightarrow> right (h n) \<noteq> None"
  using child_height_ge(1) [of h n]
  by (cases "right (h n)") (auto simp: is_right_heavy_def right_height_def)

lemma heights_nonneg_update:
  "heights_nonneg h \<Longrightarrow> heights_nonneg (update h n)"
  using child_height_ge [of h n]
  by (auto simp: heights_nonneg_def update_fields)

lemma heights_nonneg_links:
  "heights_nonneg h \<Longrightarrow> heights_nonneg (set_left h n c)"
  "heights_nonneg h \<Longrightarrow> heights_nonneg (set_right h n c)"
  "heights_nonneg h \<Longrightarrow> heights_nonneg (set_parent h n p)"
  "heights_nonneg h \<Longrightarrow> heights_nonneg (add_child h q x)"
  by (simp_all add: heights_nonneg_def prim_fields)

lemma heights_nonneg_rotate_left:
  "heights_nonneg (heap s) \<Longrightarrow> heights_nonneg (heap (rotate_left_steps s n c))"
  by (simp add: rotate_left_steps_def reattach_def Let_def heights_nonneg_update
      heights_nonneg_links split: option.split)

lemma heights_nonneg_rotate_right:
  "heights_nonneg (heap s) \<Longrightarrow> heights_nonneg (heap (rotate_right_steps s n c))"
  by (simp add: rotate_right_steps_def reattach_def Let_def heights_nonneg_update
      heights_nonneg_links split: option.split)

lemma left_kept_rotate_left:
  "left (heap s x) \<noteq> None \<Longrightarrow> left (heap (rotate_left_steps s n c) x) \<noteq> None"
  by (auto simp: rotate_left_steps_def reattach_def Let_def prim_fields split: option.split)

lemma right_kept_rotate_right:
  "right (heap s x) \<noteq> None \<Longrightarrow> right (heap (rotate_right_steps s n c) x) \<noteq> None"
  by (auto simp: rotate_right_steps_def reattach_def Let_def prim_fields split: option.split)

text \<open>The rotations of \<open>balance_rotations\<close>, with every child present.\<close>

lemma balance_rotations_cases:
  assumes "heights_nonneg (heap s)"
  shows "(case rotation_case (heap s) n of
            NoRotation \<Rightarrow> balance_rotations s n = Inr s
          | RotateRight \<Rightarrow> (\<exists>l. left (heap s n) = Some l
                \<and> balance_rotations s n = Inr (rotate_right_steps s n l))
          | LeftRight \<Rightarrow> (\<exists>l lr l1. left (heap s n) = Some l \<and> right (heap s l) = Some lr
                \<and> left (heap (rotate_left_steps s l lr) n) = Some l1
                \<and> balance_rotations s n =
                    Inr (rotate_right_steps (rotate_left_steps s l lr) n l1))
          | RotateLeft \<Rightarrow> (\<exists>r. right (heap s n) = Some r
                \<and> balance_rotations s n = Inr (rotate_left_steps s n r))
          | RightLeft \<Rightarrow> (\<exists>r rl r1. right (heap s n) = Some r \<and> left (heap s r) = Some rl
                \<and> right (heap (rotate_right_steps s r rl) n) = Some r1
                \<and> balance_rotations s n =
                    Inr (rotate_left_steps (rotate_right_steps s r rl) n r1)))"
proof (cases "is_left_heavy (heap s) n 1")
  case True
  then obtain l where l: "left (heap s n) = Some l"
    using left_heavy_child [OF assms True] by auto
  show ?thesis
  proof (cases "is_right_heavy (heap s) l 0")
    case lr: True
    then obtain lr where r: "right (heap s l) = Some lr"
      using right_heavy_child [OF assms lr] by auto
    obtain l1 where l1: "left (heap (rotate_left_steps s l lr) n) = Some l1"
      using left_kept_rotate_left [of s n l lr] l by auto
    show ?thesis using True l lr r l1
      by (simp add: rotation_case_def balance_rotations_def rotate_left_Some rotate_right_Some)
  next
    case False
    then show ?thesis using True l
      by (simp add: rotation_case_def balance_rotations_def rotate_right_Some)
  qed
next
  case nl: False
  show ?thesis
  proof (cases "is_right_heavy (heap s) n 1")
    case True
    then obtain r where r: "right (heap s n) = Some r"
      using right_heavy_child [OF assms True] by auto
    show ?thesis
    proof (cases "is_left_heavy (heap s) r 0")
      case rl: True
      then obtain rl where l: "left (heap s r) = Some rl"
        using left_heavy_child [OF assms rl] by auto
      obtain r1 where r1: "right (heap (rotate_right_steps s r rl) n) = Some r1"
        using right_kept_rotate_right [of s n r rl] r by auto
      show ?thesis using nl True r rl l r1
        by (simp add: rotation_case_def balance_rotations_def rotate_left_Some rotate_right_Some)
    next
      case False
      then show ?thesis using nl True r
        by (simp add: rotation_case_def balance_rotations_def rotate_left_Some)
    qed
  next
    case False
    then show ?thesis using nl
      by (simp add: rotation_case_def balance_rotations_def)
  qed
qed

lemma balance_rotations_ok:
  assumes "heights_nonneg (heap s)"
  shows "\<exists>s'. balance_rotations s n = Inr s' \<and> heights_nonneg (heap s')"
  using balance_rotations_cases [OF assms, of n] assms
  by (cases "rotation_case (heap s) n")
     (auto simp: heights_nonneg_rotate_left heights_nonneg_rotate_right)

lemma balance_no_error_aux:
  assumes "balance s n = Some r"
  shows "heights_nonneg (heap s) \<longrightarrow> (\<exists>s'. r = Inr s' \<and> heights_nonneg (heap s'))"
proof (rule balance.raw_induct
    [where P = "\<lambda>s n r. heights_nonneg (heap s) \<longrightarrow> (\<exists>s'. r = Inr s' \<and> heights_nonneg (heap s'))",
     OF _ assms])
  fix bal s n r
  assume IH: "\<And>s n y. bal s n = Some y \<Longrightarrow>
      heights_nonneg (heap s) \<longrightarrow> (\<exists>s'. y = Inr s' \<and> heights_nonneg (heap s'))"
    and eq: "(let par = parent (heap s n)
      in case balance_rotations s n of Inl e \<Rightarrow> Some (Inl e)
         | Inr s' \<Rightarrow> (case par of None \<Rightarrow> Some (Inr s') | Some p \<Rightarrow> bal s' p)) = Some r"
  show "heights_nonneg (heap s) \<longrightarrow> (\<exists>s'. r = Inr s' \<and> heights_nonneg (heap s'))"
  proof
    assume h: "heights_nonneg (heap s)"
    obtain s' where s': "balance_rotations s n = Inr s'" "heights_nonneg (heap s')"
      using balance_rotations_ok [OF h] by blast
    show "\<exists>s'. r = Inr s' \<and> heights_nonneg (heap s')"
    proof (cases "parent (heap s n)")
      case None
      with eq s' show ?thesis by (auto simp: Let_def)
    next
      case (Some p)
      with eq s' have "bal s' p = Some r" by (simp add: Let_def)
      from IH [OF this] s'(2) show ?thesis by auto
    qed
  qed
qed

lemma tree_update_no_error_aux:
  assumes "tree_update s node = Some r"
  shows "heights_nonneg (heap s) \<longrightarrow> (\<exists>s'. r = Inr s' \<and> heights_nonneg (heap s'))"
proof (rule tree_update.raw_induct
    [where P = "\<lambda>s node r. heights_nonneg (heap s) \<longrightarrow> (\<exists>s'. r = Inr s' \<and> heights_nonneg (heap s'))",
     OF _ assms])
  fix upd s node r
  assume IH: "\<And>s node y. upd s node = Some y \<Longrightarrow>
      heights_nonneg (heap s) \<longrightarrow> (\<exists>s'. y = Inr s' \<and> heights_nonneg (heap s'))"
    and eq: "(case node of None \<Rightarrow> Some (Inr s)
      | Some n \<Rightarrow>
          (case balance (s\<lparr>heap := update (heap s) n\<rparr>) n of None \<Rightarrow> None
           | Some (Inl e) \<Rightarrow> Some (Inl e)
           | Some (Inr s') \<Rightarrow> upd s' (parent (heap s' n)))) = Some r"
  show "heights_nonneg (heap s) \<longrightarrow> (\<exists>s'. r = Inr s' \<and> heights_nonneg (heap s'))"
  proof
    assume h: "heights_nonneg (heap s)"
    show "\<exists>s'. r = Inr s' \<and> heights_nonneg (heap s')"
    proof (cases node)
      case None
      with eq h show ?thesis by auto
    next
      case (Some n)
      let ?s1 = "s\<lparr>heap := update (heap s) n\<rparr>"
      have h1: "heights_nonneg (heap ?s1)" using h by (simp add: heights_nonneg_update)
      from eq Some obtain r1 where r1: "balance ?s1 n = Some r1"
        by (auto split: option.splits)
      from balance_no_error_aux [OF r1] h1 obtain s2 where
        s2: "r1 = Inr s2" "heights_nonneg (heap s2)" by auto
      from eq Some r1 s2 have "upd s2 (parent (heap s2 n)) = Some r" by simp
      from IH [OF this] s2(2) show ?thesis by auto
    qed
  qed
qed

lemma heights_nonneg_rotation_example: "heights_nonneg (heap rotation_example)"
  by (simp add: heights_nonneg_def rotation_example_def mk_node_def create_node_def)

text \<open>
  Claim C9. With every stored height correct for its subtree, hence at least 0: a node
  that \<^verbatim>\<open>is_left_heavy()\<close> has a left child, a node that \<^verbatim>\<open>is_right_heavy()\<close> has a
  right child, and likewise for the heavy child under the \<^verbatim>\<open>diff=0\<close> test; so no child
  dereference in \<^verbatim>\<open>_balance\<close> touches an absent child: the rotations at a node return,
  and neither \<^verbatim>\<open>_balance\<close> nor the walk \<^verbatim>\<open>_update\<close> raises.
\<close>

theorem balance_never_fails:
  assumes "heights_nonneg (heap s)"
  shows "(is_left_heavy (heap s) n 1 \<longrightarrow> left (heap s n) \<noteq> None)
    \<and> (is_right_heavy (heap s) n 1 \<longrightarrow> right (heap s n) \<noteq> None)
    \<and> (\<forall>l. left (heap s n) = Some l \<longrightarrow> is_right_heavy (heap s) l 0 \<longrightarrow> right (heap s l) \<noteq> None)
    \<and> (\<forall>r. right (heap s n) = Some r \<longrightarrow> is_left_heavy (heap s) r 0 \<longrightarrow> left (heap s r) \<noteq> None)
    \<and> (\<exists>s'. balance_rotations s n = Inr s')
    \<and> balance s n \<noteq> Some (Inl AttributeError)
    \<and> tree_update s (Some n) \<noteq> Some (Inl AttributeError)"
proof -
  have a: "is_left_heavy (heap s) n 1 \<longrightarrow> left (heap s n) \<noteq> None"
    using left_heavy_child [OF assms, of n 1] by simp
  have b: "is_right_heavy (heap s) n 1 \<longrightarrow> right (heap s n) \<noteq> None"
    using right_heavy_child [OF assms, of n 1] by simp
  have c: "\<forall>l. left (heap s n) = Some l \<longrightarrow> is_right_heavy (heap s) l 0 \<longrightarrow> right (heap s l) \<noteq> None"
    using right_heavy_child [OF assms, of _ 0] by simp
  have d: "\<forall>r. right (heap s n) = Some r \<longrightarrow> is_left_heavy (heap s) r 0 \<longrightarrow> left (heap s r) \<noteq> None"
    using left_heavy_child [OF assms, of _ 0] by simp
  have e: "\<exists>s'. balance_rotations s n = Inr s'"
    using balance_rotations_ok [OF assms, of n] by blast
  have f: "balance s n \<noteq> Some (Inl AttributeError)"
    using balance_no_error_aux [of s n "Inl AttributeError"] assms by auto
  have g: "tree_update s (Some n) \<noteq> Some (Inl AttributeError)"
    using tree_update_no_error_aux [of s "Some n" "Inl AttributeError"] assms by auto
  from a b c d e f g show ?thesis by blast
qed

theorem balance_never_fails_witness:
  "heights_nonneg (heap rotation_example)
   \<and> is_right_heavy (heap rotation_example) 1 1
   \<and> right (heap rotation_example 1) \<noteq> None
   \<and> balance rotation_example 1 \<noteq> Some (Inl AttributeError)
   \<and> tree_update rotation_example (Some 1) \<noteq> Some (Inl AttributeError)"
proof -
  have "is_right_heavy (heap rotation_example) 1 1"
    by (simp add: is_right_heavy_def left_height_def right_height_def rotation_example_def
        mk_node_def)
  with balance_never_fails [OF heights_nonneg_rotation_example, of 1]
    heights_nonneg_rotation_example
  show ?thesis by blast
qed



section \<open>The two insertion scenarios\<close>

text \<open>
  Claim C6, as amended. Inserting 10, 20, 30 in that order into an empty tree performs
  a single rotation, a left rotation at the node holding 10, and yields the root 20
  (height 1) with the left child 10 and the right child 30 (leaves of height 0).
  Inserting 30, 10, 20 performs a left-right double rotation at the node holding 30 (a
  left rotation at its left child 10, then a right rotation at 30) and yields the same
  shape. Each trace lists the invocations of \<^verbatim>\<open>_balance\<close> during the third insert.
\<close>

theorem insert_three_keys:
  "after_inserts [(0, 10), (1, 20), (2, 30)] (view [0, 1, 2]) =
     Some (Some 1,
       [\<lparr>key = 10, left = None, right = None, parent = Some 1, count = 1, weight = 1, height = 0\<rparr>,
        \<lparr>key = 20, left = Some 0, right = Some 2, parent = None, count = 1, weight = 3, height = 1\<rparr>,
        \<lparr>key = 30, left = None, right = None, parent = Some 1, count = 1, weight = 1, height = 0\<rparr>])
   \<and> after_inserts [(0, 10), (1, 20)] (\<lambda>s. map_option rotations_of (insert_trace s 2 30)) =
     Some [(30, NoRotation), (20, NoRotation), (10, NoRotation), (20, NoRotation),
           (10, RotateLeft)]
   \<and> after_inserts [(0, 30), (1, 10), (2, 20)] (view [0, 1, 2]) =
     Some (Some 2,
       [\<lparr>key = 30, left = None, right = None, parent = Some 2, count = 1, weight = 1, height = 0\<rparr>,
        \<lparr>key = 10, left = None, right = None, parent = Some 2, count = 1, weight = 1, height = 0\<rparr>,
        \<lparr>key = 20, left = Some 1, right = Some 0, parent = None, count = 1, weight = 3, height = 1\<rparr>])
   \<and> after_inserts [(0, 30), (1, 10)] (\<lambda>s. map_option rotations_of (insert_trace s 2 20)) =
     Some [(20, NoRotation), (10, NoRotation), (30, NoRotation), (10, NoRotation),
           (30, LeftRight), (20, NoRotation)]"
  by code_simp

text \<open>
  The claim as stated has the second scenario trigger a right-left double rotation, the
  mirror case, in which the node is right-heavy and its right child left-heavy. No
  invocation of \<^verbatim>\<open>_balance\<close> during that insert selects it.
\<close>

theorem insert_30_10_20_no_right_left:
  "after_inserts [(0, 30), (1, 10)]
     (\<lambda>s. map_option (\<lambda>t. RightLeft \<in> snd ` set (rotations_of t)) (insert_trace s 2 20))
   = Some False"
  by code_simp

section \<open>Stale heights during the walk\<close>

lemma update_makes_current:
  "left (h n) \<noteq> Some n \<Longrightarrow> right (h n) \<noteq> Some n \<Longrightarrow> current (update h n) n"
  by (auto simp: current_def update_fields left_height_def right_height_def split: option.split)

text \<open>
  Claim C7, as amended. In every iteration of the loop of \<^verbatim>\<open>_update\<close>, the node that
  \<^verbatim>\<open>_update\<close> itself passes to \<^verbatim>\<open>_balance\<close> has a current stored height when
  \<^verbatim>\<open>_balance\<close> is entered: the first invocation of the trace is at that node, in the
  state that \<^verbatim>\<open>node.update()\<close> left. (An ancestor reached by the recursion of
  \<^verbatim>\<open>_balance\<close> can hold a stale height; it is recomputed later, by a rotation or by
  the iteration of the loop that reaches it.)
\<close>

theorem update_hands_current_node:
  assumes "left (heap s n) \<noteq> Some n" and "right (heap s n) \<noteq> Some n"
    and "update_trace s (Some n) = Some t"
  shows "\<exists>rest. t = (s\<lparr>heap := update (heap s) n\<rparr>, n) # rest
           \<and> current (heap (s\<lparr>heap := update (heap s) n\<rparr>)) n"
proof -
  let ?s1 = "s\<lparr>heap := update (heap s) n\<rparr>"
  from assms(3) obtain t1 where t1: "balance_trace ?s1 n = Some t1"
    by (subst (asm) update_trace.simps) (auto split: Option.bind_splits)
  from t1 obtain r1 where "t1 = (?s1, n) # r1"
    by (subst (asm) balance_trace.simps)
       (auto simp: Let_def split: sum.splits option.splits Option.bind_splits)
  moreover from assms(3) t1 obtain t2 where "t = t1 @ t2"
    by (subst (asm) update_trace.simps)
       (auto split: Option.bind_splits option.splits sum.splits)
  ultimately have "\<exists>rest. t = (?s1, n) # rest" by simp
  moreover have "current (heap ?s1) n"
    using update_makes_current [of "heap s" n] assms(1,2) by simp
  ultimately show ?thesis by blast
qed

theorem update_hands_current_node_witness:
  "left (heap rotation_example 1) \<noteq> Some 1 \<and> right (heap rotation_example 1) \<noteq> Some 1
   \<and> update_trace rotation_example (Some 1) \<noteq> None
   \<and> current (heap (rotation_example\<lparr>heap := update (heap rotation_example) 1\<rparr>)) 1"
proof -
  have l: "left (heap rotation_example 1) \<noteq> Some 1" and r: "right (heap rotation_example 1) \<noteq> Some 1"
    by (simp_all add: rotation_example_def mk_node_def)
  have "update_trace rotation_example (Some 1) \<noteq> None" by code_simp
  then obtain t where t: "update_trace rotation_example (Some 1) = Some t" by auto
  from update_hands_current_node [OF l r t] l r t show ?thesis by auto
qed

text \<open>
  The claim as stated (every node whose height fields \<^verbatim>\<open>_balance\<close> inspects, the
  ancestors reached by its recursion included, has a current stored height when it is
  inspected) fails when 40 is inserted into the tree built from 20, 10, 30. Each entry
  is an invocation of \<^verbatim>\<open>_balance\<close>: the key of its node, whether the stored height of
  that node is current, and whether the stored heights of its children are. The
  recursion from 40 enters the node 30 while the height of 30 is stale, and then tests
  the node 20 against that stale height of its child 30.
\<close>

theorem recursion_reaches_stale_heights:
  "after_inserts [(0, 20), (1, 10), (2, 30)]
     (\<lambda>s. map_option currency_of (insert_trace s 3 40))
   = Some [(40, True, True), (30, False, True), (20, True, False),
           (30, True, True), (20, False, True), (20, True, True)]"
  by code_simp

section \<open>Shapes, positions and their representation\<close>

lemma nodes_plug: "nodes (plug t fs) = before fs @ nodes t @ after fs"
  by (induction t fs rule: plug.induct) simp_all

lemma top_plug: "fs \<noteq> [] \<Longrightarrow> top (plug t fs) = top (plug t' fs)"
proof (induction fs arbitrary: t t')
  case Nil
  then show ?case by simp
next
  case (Cons f fs)
  show ?case
  proof (cases fs)
    case Nil
    then show ?thesis by (cases f) simp_all
  next
    case (Cons g gs)
    then have "fs \<noteq> []" by simp
    from Cons.IH [OF this] show ?thesis by (cases f) simp_all
  qed
qed

lemma plug_append_left: "plug t (fs @ [LeftOf a r]) = Fork (plug t fs) a r"
  by (induction t fs rule: plug.induct) simp_all

lemma plug_append_right: "plug t (fs @ [RightOf l a]) = Fork l a (plug t fs)"
  by (induction t fs rule: plug.induct) simp_all

lemma rep_plug:
  "rep h None (plug t fs) \<longleftrightarrow> rep h (hole_parent fs) t \<and> ctx_rep h fs (top t)"
proof (induction fs arbitrary: t)
  case Nil
  show ?case by simp
next
  case (Cons f fs)
  show ?case by (cases f) (auto simp: Cons.IH)
qed

lemma rep_cong:
  "(\<And>x. x \<in> set (nodes t) \<Longrightarrow> links_eq h h' x) \<Longrightarrow> rep h' par t = rep h par t"
  by (induction t arbitrary: par) (auto simp: links_eq_def)

lemma rep_reparent:
  assumes "rep h par t" and "distinct (nodes t)"
    and "\<And>x. x \<in> set (nodes t) \<Longrightarrow> left (h' x) = left (h x) \<and> right (h' x) = right (h x)"
    and "\<And>x. x \<in> set (nodes t) \<Longrightarrow> top t \<noteq> Some x \<Longrightarrow> parent (h' x) = parent (h x)"
    and "\<And>x. top t = Some x \<Longrightarrow> parent (h' x) = par'"
  shows "rep h' par' t"
proof (cases t)
  case Tip
  then show ?thesis by simp
next
  case (Fork l a r)
  have "rep h' (Some a) l = rep h (Some a) l"
    using assms(2,3,4) Fork by (intro rep_cong) (auto simp: links_eq_def)
  moreover have "rep h' (Some a) r = rep h (Some a) r"
    using assms(2,3,4) Fork by (intro rep_cong) (auto simp: links_eq_def)
  ultimately show ?thesis using assms(1,3,5) Fork by auto
qed

lemma ctx_rep_cong:
  "(\<And>x. x \<in> set (before fs) \<union> set (after fs) \<Longrightarrow> links_eq h h' x)
     \<Longrightarrow> ctx_rep h' fs p = ctx_rep h fs p"
proof (induction fs arbitrary: p)
  case Nil
  show ?case by simp
next
  case (Cons f fs)
  show ?case
  proof (cases f)
    case (LeftOf a r)
    have 1: "rep h' (Some a) r = rep h (Some a) r"
      using Cons.prems LeftOf by (intro rep_cong) auto
    have 2: "ctx_rep h' fs (Some a) = ctx_rep h fs (Some a)"
      using Cons.prems LeftOf by (intro Cons.IH) auto
    have 3: "links_eq h h' a" using Cons.prems LeftOf by auto
    show ?thesis using 1 2 3 LeftOf by (auto simp: links_eq_def)
  next
    case (RightOf l a)
    have 1: "rep h' (Some a) l = rep h (Some a) l"
      using Cons.prems RightOf by (intro rep_cong) auto
    have 2: "ctx_rep h' fs (Some a) = ctx_rep h fs (Some a)"
      using Cons.prems RightOf by (intro Cons.IH) auto
    have 3: "links_eq h h' a" using Cons.prems RightOf by auto
    show ?thesis using 1 2 3 RightOf by (auto simp: links_eq_def)
  qed
qed

lemma sorted_keys_distinct:
  "sorted_wrt (<) (map (\<lambda>a. key (h a)) xs) \<Longrightarrow> distinct xs"
  by (induction xs) auto

lemma wf_tree_distinct: "wf_tree s t \<Longrightarrow> distinct (nodes t)"
  by (auto simp: wf_tree_def keys_of_def dest: sorted_keys_distinct)

lemma in_shape_position:
  "n \<in> set (nodes t) \<Longrightarrow> \<exists>l r fs. t = plug (Fork l n r) fs"
proof (induction t)
  case Tip
  then show ?case by simp
next
  case (Fork l a r)
  consider "n = a" | "n \<in> set (nodes l)" | "n \<in> set (nodes r)"
    using Fork.prems by auto
  then show ?case
  proof cases
    case 1
    have "Fork l a r = plug (Fork l n r) []" using 1 by simp
    then show ?thesis by blast
  next
    case 2
    from Fork.IH(1) [OF 2] obtain l' r' fs where "l = plug (Fork l' n r') fs" by blast
    then have "Fork l a r = plug (Fork l' n r') (fs @ [LeftOf a r])"
      by (simp add: plug_append_left)
    then show ?thesis by blast
  next
    case 3
    from Fork.IH(2) [OF 3] obtain l' r' fs where "r = plug (Fork l' n r') fs" by blast
    then have "Fork l a r = plug (Fork l' n r') (fs @ [RightOf l a])"
      by (simp add: plug_append_right)
    then show ?thesis by blast
  qed
qed

section \<open>A rotation on a tree in the store\<close>

lemma rotate_left_steps_links:
  assumes "n \<noteq> c"
  shows "left (heap (rotate_left_steps s n c) x) =
      (if parent (heap s n) = Some x \<and> key (heap s c) < key (heap s x) then Some c
       else if x = c then Some n else left (heap s x))"
    and "right (heap (rotate_left_steps s n c) x) =
      (if parent (heap s n) = Some x \<and> \<not> key (heap s c) < key (heap s x) then Some c
       else if x = n then left (heap s c) else right (heap s x))"
    and "parent (heap (rotate_left_steps s n c) x) =
      (if x = c then parent (heap s n) else if x = n then Some c
       else if left (heap s c) = Some x then Some n else parent (heap s x))"
    and "root (rotate_left_steps s n c) = (if parent (heap s n) = None then Some c else root s)"
  using assms
  by (auto simp: rotate_left_steps_def reattach_def prim_fields Let_def split: option.splits)

lemma rotate_right_steps_links:
  assumes "n \<noteq> c"
  shows "left (heap (rotate_right_steps s n c) x) =
      (if parent (heap s n) = Some x \<and> key (heap s c) < key (heap s x) then Some c
       else if x = n then right (heap s c) else left (heap s x))"
    and "right (heap (rotate_right_steps s n c) x) =
      (if parent (heap s n) = Some x \<and> \<not> key (heap s c) < key (heap s x) then Some c
       else if x = c then Some n else right (heap s x))"
    and "parent (heap (rotate_right_steps s n c) x) =
      (if x = c then parent (heap s n) else if x = n then Some c
       else if right (heap s c) = Some x then Some n else parent (heap s x))"
    and "root (rotate_right_steps s n c) = (if parent (heap s n) = None then Some c else root s)"
  using assms
  by (auto simp: rotate_right_steps_def reattach_def prim_fields Let_def split: option.splits)

lemma exact_at_links:
  "exact_at (set_parent h a p) x = exact_at h x"
  "x \<noteq> a \<Longrightarrow> exact_at (set_left h a c) x = exact_at h x"
  "x \<noteq> a \<Longrightarrow> exact_at (set_right h a c) x = exact_at h x"
  "x \<noteq> q \<Longrightarrow> exact_at (add_child h q y) x = exact_at h x"
  by (simp_all add: exact_at_def prim_fields left_height_def right_height_def left_weight_def
      right_weight_def cong: option.case_cong)

lemma exact_at_update_other:
  "x \<noteq> a \<Longrightarrow> left (h x) \<noteq> Some a \<Longrightarrow> right (h x) \<noteq> Some a
     \<Longrightarrow> exact_at (update h a) x = exact_at h x"
  by (cases "left (h x)"; cases "right (h x)")
     (simp_all add: exact_at_def update_fields left_height_def right_height_def left_weight_def
      right_weight_def)

lemma exact_at_update_self:
  "left (h a) \<noteq> Some a \<Longrightarrow> right (h a) \<noteq> Some a \<Longrightarrow> exact_at (update h a) a"
  by (cases "left (h a)"; cases "right (h a)")
     (simp_all add: exact_at_def update_fields left_height_def right_height_def left_weight_def
      right_weight_def)

lemma rotate_left_steps_exact:
  assumes "n \<noteq> c" "left (heap s n) \<noteq> Some n" "left (heap s n) \<noteq> Some c"
    "left (heap s c) \<noteq> Some n" "left (heap s c) \<noteq> Some c"
    "right (heap s c) \<noteq> Some n" "right (heap s c) \<noteq> Some c"
    "parent (heap s n) \<noteq> Some n" "parent (heap s n) \<noteq> Some c"
  shows "exact_at (heap (rotate_left_steps s n c)) n" "exact_at (heap (rotate_left_steps s n c)) c"
proof -
  let ?h1 = "set_right (heap s) n (left (heap s c))"
  let ?h2 = "update ?h1 n"
  let ?h3 = "set_parent ?h2 c (parent (heap s n))"
  let ?h4 = "set_left ?h3 c (Some n)"
  let ?h5 = "update ?h4 c"
  have n2: "exact_at ?h2 n"
    using assms by (intro exact_at_update_self) (simp_all add: prim_fields)
  have n4: "exact_at ?h4 n" using n2 assms(1) by (simp add: exact_at_links)
  have n5: "exact_at ?h5 n"
    using n4 assms by (subst exact_at_update_other) (simp_all add: prim_fields)
  have c5: "exact_at ?h5 c"
    using assms by (intro exact_at_update_self) (simp_all add: prim_fields)
  have "exact_at (heap (rotate_left_steps s n c)) n \<and> exact_at (heap (rotate_left_steps s n c)) c"
  proof (cases "parent (heap s n)")
    case None
    then show ?thesis using n5 c5 by (simp add: rotate_left_steps_def reattach_def Let_def)
  next
    case (Some p)
    then have "p \<noteq> n" "p \<noteq> c" using assms by auto
    then show ?thesis using n5 c5 Some
      by (simp add: rotate_left_steps_def reattach_def Let_def exact_at_links)
  qed
  then show "exact_at (heap (rotate_left_steps s n c)) n" "exact_at (heap (rotate_left_steps s n c)) c"
    by simp_all
qed

lemma rotate_right_steps_exact:
  assumes "n \<noteq> c" "right (heap s n) \<noteq> Some n" "right (heap s n) \<noteq> Some c"
    "left (heap s c) \<noteq> Some n" "left (heap s c) \<noteq> Some c"
    "right (heap s c) \<noteq> Some n" "right (heap s c) \<noteq> Some c"
    "parent (heap s n) \<noteq> Some n" "parent (heap s n) \<noteq> Some c"
  shows "exact_at (heap (rotate_right_steps s n c)) n" "exact_at (heap (rotate_right_steps s n c)) c"
proof -
  let ?h1 = "set_left (heap s) n (right (heap s c))"
  let ?h2 = "update ?h1 n"
  let ?h3 = "set_parent ?h2 c (parent (heap s n))"
  let ?h4 = "set_right ?h3 c (Some n)"
  let ?h5 = "update ?h4 c"
  have n2: "exact_at ?h2 n"
    using assms by (intro exact_at_update_self) (simp_all add: prim_fields)
  have n4: "exact_at ?h4 n" using n2 assms(1) by (simp add: exact_at_links)
  have n5: "exact_at ?h5 n"
    using n4 assms by (subst exact_at_update_other) (simp_all add: prim_fields)
  have c5: "exact_at ?h5 c"
    using assms by (intro exact_at_update_self) (simp_all add: prim_fields)
  have "exact_at (heap (rotate_right_steps s n c)) n \<and> exact_at (heap (rotate_right_steps s n c)) c"
  proof (cases "parent (heap s n)")
    case None
    then show ?thesis using n5 c5 by (simp add: rotate_right_steps_def reattach_def Let_def)
  next
    case (Some p)
    then have "p \<noteq> n" "p \<noteq> c" using assms by auto
    then show ?thesis using n5 c5 Some
      by (simp add: rotate_right_steps_def reattach_def Let_def exact_at_links)
  qed
  then show "exact_at (heap (rotate_right_steps s n c)) n" "exact_at (heap (rotate_right_steps s n c)) c"
    by simp_all
qed

lemma top_in_nodes: "top t = Some x \<Longrightarrow> x \<in> set (nodes t)"
  by (cases t) auto

lemma hole_parent_in_ctx: "hole_parent fs = Some p \<Longrightarrow> p \<in> set (before fs) \<union> set (after fs)"
  by (cases fs; cases "hd fs") auto

lemma sorted_keys_before:
  assumes "sorted_wrt (<) (map f (xs @ a # ys))" and "b \<in> set ys"
  shows "f a < f b"
  using assms by (auto simp: sorted_wrt_append)

lemma sorted_keys_after:
  assumes "sorted_wrt (<) (map f (xs @ a # ys))" and "b \<in> set xs"
  shows "f b < f a"
  using assms by (auto simp: sorted_wrt_append)

lemma rotate_left_wf:
  assumes wf: "wf_tree s (plug (Fork A n (Fork B c C)) fs)"
  shows "wf_tree (rotate_left_steps s n c) (plug (Fork (Fork A n B) c C) fs)"
proof -
  let ?h = "heap s"
  let ?s' = "rotate_left_steps s n c"
  let ?h' = "heap ?s'"
  let ?par = "hole_parent fs"
  have nd: "nodes (plug (Fork A n (Fork B c C)) fs)
      = before fs @ nodes A @ n # nodes B @ c # nodes C @ after fs"
    by (simp add: nodes_plug)
  have dist: "distinct (before fs @ nodes A @ n # nodes B @ c # nodes C @ after fs)"
    using wf_tree_distinct [OF wf] nd by simp
  have srt: "sorted_wrt (<) (map (\<lambda>a. key (?h a)) (before fs @ nodes A @ n # nodes B @ c # nodes C @ after fs))"
    using wf nd by (simp add: wf_tree_def keys_of_def)
  from wf have "rep ?h None (plug (Fork A n (Fork B c C)) fs)" by (simp add: wf_tree_def)
  then have R: "rep ?h ?par (Fork A n (Fork B c C))" and CR: "ctx_rep ?h fs (Some n)"
    by (simp_all add: rep_plug)
  from R have pn: "parent (?h n) = ?par" and ln: "left (?h n) = top A"
    and rn: "right (?h n) = Some c" and pc: "parent (?h c) = Some n"
    and lc: "left (?h c) = top B" and rc: "right (?h c) = top C"
    and RA: "rep ?h (Some n) A" and RB: "rep ?h (Some c) B" and RC: "rep ?h (Some c) C"
    by simp_all
  have nc: "n \<noteq> c" using dist by auto
  note lk = rotate_left_steps_links [OF nc, of s]
  have par_ctx: "\<And>p. ?par = Some p \<Longrightarrow> p \<in> set (before fs) \<union> set (after fs)"
    by (rule hole_parent_in_ctx)
  have par_n: "?par \<noteq> Some n" and par_c: "?par \<noteq> Some c"
    using par_ctx dist by auto
  have topB: "\<And>x. top B = Some x \<Longrightarrow> x \<in> set (nodes B)" by (rule top_in_nodes)
  have inA: "\<And>x. x \<in> set (nodes A) \<Longrightarrow> links_eq ?h ?h' x"
  proof -
    fix x assume x: "x \<in> set (nodes A)"
    have "x \<noteq> n" "x \<noteq> c" "?par \<noteq> Some x" "top B \<noteq> Some x"
      using x dist par_ctx topB by auto
    then show "links_eq ?h ?h' x" by (simp add: links_eq_def lk pn lc)
  qed
  have inC: "\<And>x. x \<in> set (nodes C) \<Longrightarrow> links_eq ?h ?h' x"
  proof -
    fix x assume x: "x \<in> set (nodes C)"
    have "x \<noteq> n" "x \<noteq> c" "?par \<noteq> Some x" "top B \<noteq> Some x"
      using x dist par_ctx topB by auto
    then show "links_eq ?h ?h' x" by (simp add: links_eq_def lk pn lc)
  qed
  have RA': "rep ?h' (Some n) A" using RA rep_cong [of A ?h ?h' "Some n"] inA by blast
  have RC': "rep ?h' (Some c) C" using RC rep_cong [of C ?h ?h' "Some c"] inC by blast
  have RB': "rep ?h' (Some n) B"
  proof (rule rep_reparent [OF RB])
    show "distinct (nodes B)" using dist by simp
  next
    fix x assume x: "x \<in> set (nodes B)"
    have "x \<noteq> n" "x \<noteq> c" "?par \<noteq> Some x" using x dist par_ctx by auto
    then show "left (?h' x) = left (?h x) \<and> right (?h' x) = right (?h x)"
      by (simp add: lk pn)
  next
    fix x assume x: "x \<in> set (nodes B)" and t: "top B \<noteq> Some x"
    have "x \<noteq> n" "x \<noteq> c" using x dist by auto
    then show "parent (?h' x) = parent (?h x)" using t by (simp add: lk lc)
  next
    fix x assume t: "top B = Some x"
    then have "x \<in> set (nodes B)" by (rule topB)
    then have "x \<noteq> n" "x \<noteq> c" using dist by auto
    then show "parent (?h' x) = Some n" using t by (simp add: lk lc)
  qed
  have Rn: "rep ?h' (Some c) (Fork A n B)"
    using RA' RB' nc par_n by (simp add: lk pn ln lc)
  have R': "rep ?h' ?par (Fork (Fork A n B) c C)"
    using Rn RC' nc par_c by (simp add: lk pn rc)
  have CR': "ctx_rep ?h' fs (Some c)"
  proof (cases fs)
    case Nil
    then show ?thesis by simp
  next
    case (Cons f fs')
    have rest: "\<And>x. x \<in> set (before fs) \<union> set (after fs) \<Longrightarrow> ?par \<noteq> Some x \<Longrightarrow> links_eq ?h ?h' x"
    proof -
      fix x assume x: "x \<in> set (before fs) \<union> set (after fs)" and p: "?par \<noteq> Some x"
      have "x \<noteq> n" "x \<noteq> c" "top B \<noteq> Some x" using x dist topB by auto
      then show "links_eq ?h ?h' x" using p by (simp add: links_eq_def lk pn lc)
    qed
    show ?thesis
    proof (cases f)
      case (LeftOf p S)
      have pdist: "p \<noteq> n" "p \<noteq> c" "top B \<noteq> Some p" "p \<notin> set (nodes S)"
        "p \<notin> set (before fs') \<union> set (after fs')"
        using dist topB Cons LeftOf by auto
      have klt: "key (?h c) < key (?h p)"
        using sorted_keys_before [of "\<lambda>a. key (?h a)" "before fs @ nodes A @ n # nodes B" c
            "nodes C @ after fs" p] srt Cons LeftOf by simp
      have S': "rep ?h' (Some p) S = rep ?h (Some p) S"
        using pdist Cons LeftOf by (intro rep_cong rest) auto
      have F': "ctx_rep ?h' fs' (Some p) = ctx_rep ?h fs' (Some p)"
        using pdist Cons LeftOf by (intro ctx_rep_cong rest) auto
      show ?thesis using CR S' F' pdist klt Cons LeftOf
        by (simp add: lk pn lc)
    next
      case (RightOf S p)
      have pdist: "p \<noteq> n" "p \<noteq> c" "top B \<noteq> Some p" "p \<notin> set (nodes S)"
        "p \<notin> set (before fs') \<union> set (after fs')"
        using dist topB Cons RightOf by auto
      have klt: "key (?h p) < key (?h c)"
        using sorted_keys_after [of "\<lambda>a. key (?h a)" "before fs @ nodes A @ n # nodes B" c
            "nodes C @ after fs" p] srt Cons RightOf by simp
      have S': "rep ?h' (Some p) S = rep ?h (Some p) S"
        using pdist Cons RightOf by (intro rep_cong rest) auto
      have F': "ctx_rep ?h' fs' (Some p) = ctx_rep ?h fs' (Some p)"
        using pdist Cons RightOf by (intro ctx_rep_cong rest) auto
      show ?thesis using CR S' F' pdist klt Cons RightOf
        by (simp add: lk pn lc)
    qed
  qed
  have rt: "root ?s' = top (plug (Fork (Fork A n B) c C) fs)"
  proof (cases fs)
    case Nil
    then show ?thesis by (simp add: lk pn)
  next
    case (Cons f fs')
    then have "fs \<noteq> []" by simp
    from top_plug [OF this, of "Fork (Fork A n B) c C" "Fork A n (Fork B c C)"] wf Cons
    show ?thesis by (simp add: lk pn wf_tree_def)
  qed
  have keys: "keys_of ?h' (plug (Fork (Fork A n B) c C) fs) = keys_of ?h (plug (Fork A n (Fork B c C)) fs)"
    by (simp add: keys_of_def nodes_plug rotate_left_steps_data)
  show ?thesis
    using R' CR' rt keys wf by (simp add: wf_tree_def rep_plug)
qed

lemma rotate_right_wf:
  assumes wf: "wf_tree s (plug (Fork (Fork A c B) n C) fs)"
  shows "wf_tree (rotate_right_steps s n c) (plug (Fork A c (Fork B n C)) fs)"
proof -
  let ?h = "heap s"
  let ?s' = "rotate_right_steps s n c"
  let ?h' = "heap ?s'"
  let ?par = "hole_parent fs"
  have nd: "nodes (plug (Fork (Fork A c B) n C) fs)
      = before fs @ nodes A @ c # nodes B @ n # nodes C @ after fs"
    by (simp add: nodes_plug)
  have dist: "distinct (before fs @ nodes A @ c # nodes B @ n # nodes C @ after fs)"
    using wf_tree_distinct [OF wf] nd by simp
  have srt: "sorted_wrt (<) (map (\<lambda>a. key (?h a)) (before fs @ nodes A @ c # nodes B @ n # nodes C @ after fs))"
    using wf nd by (simp add: wf_tree_def keys_of_def)
  from wf have "rep ?h None (plug (Fork (Fork A c B) n C) fs)" by (simp add: wf_tree_def)
  then have R: "rep ?h ?par (Fork (Fork A c B) n C)" and CR: "ctx_rep ?h fs (Some n)"
    by (simp_all add: rep_plug)
  from R have pn: "parent (?h n) = ?par" and ln: "left (?h n) = Some c"
    and rn: "right (?h n) = top C" and pc: "parent (?h c) = Some n"
    and lc: "left (?h c) = top A" and rc: "right (?h c) = top B"
    and RA: "rep ?h (Some c) A" and RB: "rep ?h (Some c) B" and RC: "rep ?h (Some n) C"
    by simp_all
  have nc: "n \<noteq> c" using dist by auto
  note lk = rotate_right_steps_links [OF nc, of s]
  have par_ctx: "\<And>p. ?par = Some p \<Longrightarrow> p \<in> set (before fs) \<union> set (after fs)"
    by (rule hole_parent_in_ctx)
  have par_n: "?par \<noteq> Some n" and par_c: "?par \<noteq> Some c"
    using par_ctx dist by auto
  have topB: "\<And>x. top B = Some x \<Longrightarrow> x \<in> set (nodes B)" by (rule top_in_nodes)
  have inA: "\<And>x. x \<in> set (nodes A) \<Longrightarrow> links_eq ?h ?h' x"
  proof -
    fix x assume x: "x \<in> set (nodes A)"
    have "x \<noteq> n" "x \<noteq> c" "?par \<noteq> Some x" "top B \<noteq> Some x"
      using x dist par_ctx topB by auto
    then show "links_eq ?h ?h' x" by (simp add: links_eq_def lk pn rc)
  qed
  have inC: "\<And>x. x \<in> set (nodes C) \<Longrightarrow> links_eq ?h ?h' x"
  proof -
    fix x assume x: "x \<in> set (nodes C)"
    have "x \<noteq> n" "x \<noteq> c" "?par \<noteq> Some x" "top B \<noteq> Some x"
      using x dist par_ctx topB by auto
    then show "links_eq ?h ?h' x" by (simp add: links_eq_def lk pn rc)
  qed
  have RA': "rep ?h' (Some c) A" using RA rep_cong [of A ?h ?h' "Some c"] inA by blast
  have RC': "rep ?h' (Some n) C" using RC rep_cong [of C ?h ?h' "Some n"] inC by blast
  have RB': "rep ?h' (Some n) B"
  proof (rule rep_reparent [OF RB])
    show "distinct (nodes B)" using dist by simp
  next
    fix x assume x: "x \<in> set (nodes B)"
    have "x \<noteq> n" "x \<noteq> c" "?par \<noteq> Some x" using x dist par_ctx by auto
    then show "left (?h' x) = left (?h x) \<and> right (?h' x) = right (?h x)"
      by (simp add: lk pn)
  next
    fix x assume x: "x \<in> set (nodes B)" and t: "top B \<noteq> Some x"
    have "x \<noteq> n" "x \<noteq> c" using x dist by auto
    then show "parent (?h' x) = parent (?h x)" using t by (simp add: lk rc)
  next
    fix x assume t: "top B = Some x"
    then have "x \<in> set (nodes B)" by (rule topB)
    then have "x \<noteq> n" "x \<noteq> c" using dist by auto
    then show "parent (?h' x) = Some n" using t by (simp add: lk rc)
  qed
  have Rn: "rep ?h' (Some c) (Fork B n C)"
    using RC' RB' nc par_n by (simp add: lk pn rn rc)
  have R': "rep ?h' ?par (Fork A c (Fork B n C))"
    using Rn RA' nc par_c by (simp add: lk pn lc)
  have CR': "ctx_rep ?h' fs (Some c)"
  proof (cases fs)
    case Nil
    then show ?thesis by simp
  next
    case (Cons f fs')
    have rest: "\<And>x. x \<in> set (before fs) \<union> set (after fs) \<Longrightarrow> ?par \<noteq> Some x \<Longrightarrow> links_eq ?h ?h' x"
    proof -
      fix x assume x: "x \<in> set (before fs) \<union> set (after fs)" and p: "?par \<noteq> Some x"
      have "x \<noteq> n" "x \<noteq> c" "top B \<noteq> Some x" using x dist topB by auto
      then show "links_eq ?h ?h' x" using p by (simp add: links_eq_def lk pn rc)
    qed
    show ?thesis
    proof (cases f)
      case (LeftOf p S)
      have pdist: "p \<noteq> n" "p \<noteq> c" "top B \<noteq> Some p" "p \<notin> set (nodes S)"
        "p \<notin> set (before fs') \<union> set (after fs')"
        using dist topB Cons LeftOf by auto
      have klt: "key (?h c) < key (?h p)"
        using sorted_keys_before [of "\<lambda>a. key (?h a)" "before fs @ nodes A" c
            "nodes B @ n # nodes C @ after fs" p] srt Cons LeftOf by simp
      have S': "rep ?h' (Some p) S = rep ?h (Some p) S"
        using pdist Cons LeftOf by (intro rep_cong rest) auto
      have F': "ctx_rep ?h' fs' (Some p) = ctx_rep ?h fs' (Some p)"
        using pdist Cons LeftOf by (intro ctx_rep_cong rest) auto
      show ?thesis using CR S' F' pdist klt Cons LeftOf
        by (simp add: lk pn rc)
    next
      case (RightOf S p)
      have pdist: "p \<noteq> n" "p \<noteq> c" "top B \<noteq> Some p" "p \<notin> set (nodes S)"
        "p \<notin> set (before fs') \<union> set (after fs')"
        using dist topB Cons RightOf by auto
      have klt: "key (?h p) < key (?h c)"
        using sorted_keys_after [of "\<lambda>a. key (?h a)" "before fs @ nodes A" c
            "nodes B @ n # nodes C @ after fs" p] srt Cons RightOf by simp
      have S': "rep ?h' (Some p) S = rep ?h (Some p) S"
        using pdist Cons RightOf by (intro rep_cong rest) auto
      have F': "ctx_rep ?h' fs' (Some p) = ctx_rep ?h fs' (Some p)"
        using pdist Cons RightOf by (intro ctx_rep_cong rest) auto
      show ?thesis using CR S' F' pdist klt Cons RightOf
        by (simp add: lk pn rc)
    qed
  qed
  have rt: "root ?s' = top (plug (Fork A c (Fork B n C)) fs)"
  proof (cases fs)
    case Nil
    then show ?thesis by (simp add: lk pn)
  next
    case (Cons f fs')
    then have "fs \<noteq> []" by simp
    from top_plug [OF this, of "Fork A c (Fork B n C)" "Fork (Fork A c B) n C"] wf Cons
    show ?thesis by (simp add: lk pn wf_tree_def)
  qed
  have keys: "keys_of ?h' (plug (Fork A c (Fork B n C)) fs) = keys_of ?h (plug (Fork (Fork A c B) n C) fs)"
    by (simp add: keys_of_def nodes_plug rotate_right_steps_data)
  show ?thesis
    using R' CR' rt keys wf by (simp add: wf_tree_def rep_plug)
qed

section \<open>Bookkeeping of a tree in the store\<close>

lemma same_data_refl: "same_data h h X"
  by (simp add: same_data_def)

lemma same_data_trans:
  "same_data h h1 X \<Longrightarrow> same_data h1 h2 Y \<Longrightarrow> same_data h h2 (X \<union> Y)"
  by (simp add: same_data_def)

lemma same_data_mono: "same_data h h' X \<Longrightarrow> X \<subseteq> Y \<Longrightarrow> same_data h h' Y"
  by (auto simp: same_data_def)

lemma stored_same:
  assumes "same_data h h' X" and "set (nodes t) \<inter> X = {}"
  shows "stored_height h' t = stored_height h t" and "stored_weight h' t = stored_weight h t"
  using assms by (cases t; auto simp: same_data_def stored_height_def stored_weight_def)+

lemma exact_top_same:
  assumes "same_data h h' X" and "a \<notin> X" and "set (nodes l) \<inter> X = {}"
    and "set (nodes r) \<inter> X = {}"
  shows "exact_top h' (Fork l a r) = exact_top h (Fork l a r)"
  using assms stored_same [of h h' X l] stored_same [of h h' X r]
  by (simp add: same_data_def)

lemma exact_same:
  "same_data h h' X \<Longrightarrow> set (nodes t) \<inter> X = {} \<Longrightarrow> exact h' t = exact h t"
proof (induction t)
  case Tip
  show ?case by simp
next
  case (Fork l a r)
  have l: "set (nodes l) \<inter> X = {}" and r: "set (nodes r) \<inter> X = {}" and a: "a \<notin> X"
    using Fork.prems(2) by auto
  show ?case
    using Fork.IH(1) [OF Fork.prems(1) l] Fork.IH(2) [OF Fork.prems(1) r]
      exact_top_same [OF Fork.prems(1) a l r]
    by simp
qed

lemma child_reads:
  assumes "left (h a) = top l" and "right (h a) = top r"
  shows "left_height h a = stored_height h l" "right_height h a = stored_height h r"
    "left_weight h a = stored_weight h l" "right_weight h a = stored_weight h r"
  using assms
  by (simp_all add: left_height_def right_height_def left_weight_def right_weight_def
      stored_height_def stored_weight_def)

lemma exact_at_top:
  "left (h a) = top l \<Longrightarrow> right (h a) = top r \<Longrightarrow> exact_top h (Fork l a r) = exact_at h a"
  by (simp add: exact_at_def child_reads)

lemma exact_stored_height: "exact h t \<Longrightarrow> stored_height h t = ht t"
proof (induction t)
  case Tip
  show ?case by (simp add: stored_height_def)
next
  case (Fork l a r)
  then show ?case by (simp add: stored_height_def)
qed

lemma exact_imp_exact_at:
  "rep h par t \<Longrightarrow> exact h t \<Longrightarrow> a \<in> set (nodes t) \<Longrightarrow> exact_at h a"
proof (induction t arbitrary: par)
  case Tip
  then show ?case by simp
next
  case (Fork l b r)
  have top: "exact_at h b"
    using Fork.prems(1,2) exact_at_top [of h b l r] by simp
  from Fork.prems(3) consider "a = b" | "a \<in> set (nodes l)" | "a \<in> set (nodes r)" by auto
  then show ?case
  proof cases
    case 1
    then show ?thesis using top by simp
  next
    case 2
    then show ?thesis using Fork.IH(1) [of "Some b"] Fork.prems(1,2) by simp
  next
    case 3
    then show ?thesis using Fork.IH(2) [of "Some b"] Fork.prems(1,2) by simp
  qed
qed

lemma rotate_left_tree:
  assumes wf: "wf_tree s (plug (Fork A n (Fork B c C)) fs)"
  shows "wf_tree (rotate_left_steps s n c) (plug (Fork (Fork A n B) c C) fs)"
    and "same_data (heap s) (heap (rotate_left_steps s n c)) {n, c}"
    and "exact_top (heap (rotate_left_steps s n c)) (Fork A n B)"
    and "exact_top (heap (rotate_left_steps s n c)) (Fork (Fork A n B) c C)"
proof -
  let ?h = "heap s"
  let ?h' = "heap (rotate_left_steps s n c)"
  show wf': "wf_tree (rotate_left_steps s n c) (plug (Fork (Fork A n B) c C) fs)"
    by (rule rotate_left_wf [OF wf])
  show "same_data ?h ?h' {n, c}"
    by (simp add: same_data_def rotate_left_steps_data)
  have dist: "distinct (before fs @ nodes A @ n # nodes B @ c # nodes C @ after fs)"
    using wf_tree_distinct [OF wf] by (simp add: nodes_plug)
  from wf have R: "rep ?h (hole_parent fs) (Fork A n (Fork B c C))"
    by (simp add: wf_tree_def rep_plug)
  have tA: "\<And>x. top A = Some x \<Longrightarrow> x \<in> set (nodes A)"
    and tB: "\<And>x. top B = Some x \<Longrightarrow> x \<in> set (nodes B)"
    and tC: "\<And>x. top C = Some x \<Longrightarrow> x \<in> set (nodes C)"
    and tp: "\<And>x. hole_parent fs = Some x \<Longrightarrow> x \<in> set (before fs) \<union> set (after fs)"
    by (rule top_in_nodes hole_parent_in_ctx; assumption)+
  have side: "n \<noteq> c" "left (?h n) \<noteq> Some n" "left (?h n) \<noteq> Some c"
    "left (?h c) \<noteq> Some n" "left (?h c) \<noteq> Some c"
    "right (?h c) \<noteq> Some n" "right (?h c) \<noteq> Some c"
    "parent (?h n) \<noteq> Some n" "parent (?h n) \<noteq> Some c"
    using R dist tA tB tC tp by auto
  note ex = rotate_left_steps_exact [OF side]
  from wf' have R': "rep ?h' (hole_parent fs) (Fork (Fork A n B) c C)"
    by (simp add: wf_tree_def rep_plug)
  show "exact_top ?h' (Fork A n B)"
    using ex(1) R' exact_at_top [of ?h' n A B] by simp
  show "exact_top ?h' (Fork (Fork A n B) c C)"
    using ex(2) R' exact_at_top [of ?h' c "Fork A n B" C] by simp
qed

lemma rotate_right_tree:
  assumes wf: "wf_tree s (plug (Fork (Fork A c B) n C) fs)"
  shows "wf_tree (rotate_right_steps s n c) (plug (Fork A c (Fork B n C)) fs)"
    and "same_data (heap s) (heap (rotate_right_steps s n c)) {n, c}"
    and "exact_top (heap (rotate_right_steps s n c)) (Fork B n C)"
    and "exact_top (heap (rotate_right_steps s n c)) (Fork A c (Fork B n C))"
proof -
  let ?h = "heap s"
  let ?h' = "heap (rotate_right_steps s n c)"
  show wf': "wf_tree (rotate_right_steps s n c) (plug (Fork A c (Fork B n C)) fs)"
    by (rule rotate_right_wf [OF wf])
  show "same_data ?h ?h' {n, c}"
    by (simp add: same_data_def rotate_right_steps_data)
  have dist: "distinct (before fs @ nodes A @ c # nodes B @ n # nodes C @ after fs)"
    using wf_tree_distinct [OF wf] by (simp add: nodes_plug)
  from wf have R: "rep ?h (hole_parent fs) (Fork (Fork A c B) n C)"
    by (simp add: wf_tree_def rep_plug)
  have tA: "\<And>x. top A = Some x \<Longrightarrow> x \<in> set (nodes A)"
    and tB: "\<And>x. top B = Some x \<Longrightarrow> x \<in> set (nodes B)"
    and tC: "\<And>x. top C = Some x \<Longrightarrow> x \<in> set (nodes C)"
    and tp: "\<And>x. hole_parent fs = Some x \<Longrightarrow> x \<in> set (before fs) \<union> set (after fs)"
    by (rule top_in_nodes hole_parent_in_ctx; assumption)+
  have side: "n \<noteq> c" "right (?h n) \<noteq> Some n" "right (?h n) \<noteq> Some c"
    "left (?h c) \<noteq> Some n" "left (?h c) \<noteq> Some c"
    "right (?h c) \<noteq> Some n" "right (?h c) \<noteq> Some c"
    "parent (?h n) \<noteq> Some n" "parent (?h n) \<noteq> Some c"
    using R dist tA tB tC tp by auto
  note ex = rotate_right_steps_exact [OF side]
  from wf' have R': "rep ?h' (hole_parent fs) (Fork A c (Fork B n C))"
    by (simp add: wf_tree_def rep_plug)
  show "exact_top ?h' (Fork B n C)"
    using ex(1) R' exact_at_top [of ?h' n B C] by simp
  show "exact_top ?h' (Fork A c (Fork B n C))"
    using ex(2) R' exact_at_top [of ?h' c A "Fork B n C"] by simp
qed

section \<open>The rotations of _balance on a tree in the store\<close>

lemma top_Some_Fork: "top t = Some a \<Longrightarrow> \<exists>l r. t = Fork l a r"
  by (cases t) auto

lemma nodes_rotated: "nodes (rotated k t) = nodes t"
  by (induction k t rule: rotated.induct) simp_all

lemma balance_rotations_tree:
  assumes wf: "wf_tree s (plug (Fork l n r) fs)" and hn: "heights_nonneg (heap s)"
  shows "\<exists>s'. balance_rotations s n = Inr s'
    \<and> wf_tree s' (plug (rotated (rotation_case (heap s) n) (Fork l n r)) fs)
    \<and> same_data (heap s) (heap s') (set (nodes (Fork l n r)))
    \<and> heights_nonneg (heap s')
    \<and> (rotation_case (heap s) n = NoRotation \<longrightarrow> s' = s)
    \<and> (rotation_case (heap s) n \<noteq> NoRotation \<longrightarrow> exact (heap s) l \<longrightarrow> exact (heap s) r
         \<longrightarrow> exact (heap s') (rotated (rotation_case (heap s) n) (Fork l n r)))"
proof -
  let ?h = "heap s"
  let ?k = "rotation_case ?h n"
  have dist: "distinct (before fs @ nodes l @ n # nodes r @ after fs)"
    using wf_tree_distinct [OF wf] by (simp add: nodes_plug)
  from wf have R: "rep ?h (hole_parent fs) (Fork l n r)"
    by (simp add: wf_tree_def rep_plug)
  then have ln: "left (?h n) = top l" and rn: "right (?h n) = top r"
    and Rl: "rep ?h (Some n) l" and Rr: "rep ?h (Some n) r" by simp_all
  note cases = balance_rotations_cases [OF hn, of n]
  show ?thesis
  proof (cases ?k)
    case NoRotation
    then show ?thesis using cases wf hn by (simp add: same_data_refl)
  next
    case RotateRight
    with cases obtain a where a: "left (?h n) = Some a"
      and br: "balance_rotations s n = Inr (rotate_right_steps s n a)" by auto
    from a ln obtain ll lr where l: "l = Fork ll a lr" using top_Some_Fork [of l a] by auto
    let ?s' = "rotate_right_steps s n a"
    note rt = rotate_right_tree [OF wf [unfolded l]]
    have d: "set (nodes ll) \<inter> {n, a} = {}" "set (nodes lr) \<inter> {n, a} = {}"
      "set (nodes r) \<inter> {n, a} = {}"
      using dist l by auto
    have ex: "exact ?h l \<longrightarrow> exact ?h r \<longrightarrow> exact (heap ?s') (Fork ll a (Fork lr n r))"
      using rt(3,4) exact_same [OF rt(2) d(1)] exact_same [OF rt(2) d(2)]
        exact_same [OF rt(2) d(3)] l by simp
    have sd: "same_data ?h (heap ?s') (set (nodes (Fork l n r)))"
      by (rule same_data_mono [OF rt(2)]) (auto simp: l)
    show ?thesis using br rt(1) sd ex RotateRight l hn
      by (simp add: heights_nonneg_rotate_right)
  next
    case LeftRight
    with cases obtain a b l1 where a: "left (?h n) = Some a" and b: "right (?h a) = Some b"
      and l1: "left (heap (rotate_left_steps s a b) n) = Some l1"
      and br: "balance_rotations s n = Inr (rotate_right_steps (rotate_left_steps s a b) n l1)"
      by auto
    from a ln obtain ll lr where l: "l = Fork ll a lr" using top_Some_Fork [of l a] by auto
    from Rl l b obtain lrl lrr where lr: "lr = Fork lrl b lrr"
      using top_Some_Fork [of lr b] by auto
    let ?s1 = "rotate_left_steps s a b"
    have wf0: "wf_tree s (plug (Fork ll a (Fork lrl b lrr)) (LeftOf n r # fs))"
      using wf l lr by simp
    note r1 = rotate_left_tree [OF wf0]
    from r1(1) have wf1: "wf_tree ?s1 (plug (Fork (Fork (Fork ll a lrl) b lrr) n r) fs)"
      by simp
    then have "left (heap ?s1 n) = Some b" by (simp add: wf_tree_def rep_plug)
    with l1 have l1b: "l1 = b" by simp
    let ?s2 = "rotate_right_steps ?s1 n b"
    note r2 = rotate_right_tree [OF wf1]
    have d: "set (nodes ll) \<inter> ({a, b} \<union> {n, b}) = {}" "set (nodes lrl) \<inter> ({a, b} \<union> {n, b}) = {}"
      "set (nodes lrr) \<inter> ({a, b} \<union> {n, b}) = {}" "set (nodes r) \<inter> ({a, b} \<union> {n, b}) = {}"
      "a \<notin> {n, b}" "set (nodes ll) \<inter> {n, b} = {}" "set (nodes lrl) \<inter> {n, b} = {}"
      using dist l lr by auto
    have sd2: "same_data ?h (heap ?s2) ({a, b} \<union> {n, b})"
      by (rule same_data_trans [OF r1(2) r2(2)])
    have ta: "exact_top (heap ?s2) (Fork ll a lrl)"
      using r1(3) exact_top_same [OF r2(2) d(5) d(6) d(7)] by simp
    have ex: "exact ?h l \<longrightarrow> exact ?h r
        \<longrightarrow> exact (heap ?s2) (Fork (Fork ll a lrl) b (Fork lrr n r))"
      using r2(3,4) ta exact_same [OF sd2 d(1)] exact_same [OF sd2 d(2)]
        exact_same [OF sd2 d(3)] exact_same [OF sd2 d(4)] l lr by simp
    have sd: "same_data ?h (heap ?s2) (set (nodes (Fork l n r)))"
      by (rule same_data_mono [OF sd2]) (auto simp: l lr)
    show ?thesis using br r2(1) sd ex LeftRight l lr hn l1b
      by (simp add: heights_nonneg_rotate_right heights_nonneg_rotate_left)
  next
    case RotateLeft
    with cases obtain c where c: "right (?h n) = Some c"
      and br: "balance_rotations s n = Inr (rotate_left_steps s n c)" by auto
    from c rn obtain rl rr where r: "r = Fork rl c rr" using top_Some_Fork [of r c] by auto
    let ?s' = "rotate_left_steps s n c"
    note rt = rotate_left_tree [OF wf [unfolded r]]
    have d: "set (nodes l) \<inter> {n, c} = {}" "set (nodes rl) \<inter> {n, c} = {}"
      "set (nodes rr) \<inter> {n, c} = {}"
      using dist r by auto
    have ex: "exact ?h l \<longrightarrow> exact ?h r \<longrightarrow> exact (heap ?s') (Fork (Fork l n rl) c rr)"
      using rt(3,4) exact_same [OF rt(2) d(1)] exact_same [OF rt(2) d(2)]
        exact_same [OF rt(2) d(3)] r by simp
    have sd: "same_data ?h (heap ?s') (set (nodes (Fork l n r)))"
      by (rule same_data_mono [OF rt(2)]) (auto simp: r)
    show ?thesis using br rt(1) sd ex RotateLeft r hn
      by (simp add: heights_nonneg_rotate_left)
  next
    case RightLeft
    with cases obtain c b r1 where c: "right (?h n) = Some c" and b: "left (?h c) = Some b"
      and r1: "right (heap (rotate_right_steps s c b) n) = Some r1"
      and br: "balance_rotations s n = Inr (rotate_left_steps (rotate_right_steps s c b) n r1)"
      by auto
    from c rn obtain rl rr where r: "r = Fork rl c rr" using top_Some_Fork [of r c] by auto
    from Rr r b obtain rll rlr where rl: "rl = Fork rll b rlr"
      using top_Some_Fork [of rl b] by auto
    let ?s1 = "rotate_right_steps s c b"
    have wf0: "wf_tree s (plug (Fork (Fork rll b rlr) c rr) (RightOf l n # fs))"
      using wf r rl by simp
    note q1 = rotate_right_tree [OF wf0]
    from q1(1) have wf1: "wf_tree ?s1 (plug (Fork l n (Fork rll b (Fork rlr c rr))) fs)"
      by simp
    then have "right (heap ?s1 n) = Some b" by (simp add: wf_tree_def rep_plug)
    with r1 have r1b: "r1 = b" by simp
    let ?s2 = "rotate_left_steps ?s1 n b"
    note q2 = rotate_left_tree [OF wf1]
    have d: "set (nodes l) \<inter> ({c, b} \<union> {n, b}) = {}" "set (nodes rll) \<inter> ({c, b} \<union> {n, b}) = {}"
      "set (nodes rlr) \<inter> ({c, b} \<union> {n, b}) = {}" "set (nodes rr) \<inter> ({c, b} \<union> {n, b}) = {}"
      "c \<notin> {n, b}" "set (nodes rlr) \<inter> {n, b} = {}" "set (nodes rr) \<inter> {n, b} = {}"
      using dist r rl by auto
    have sd2: "same_data ?h (heap ?s2) ({c, b} \<union> {n, b})"
      by (rule same_data_trans [OF q1(2) q2(2)])
    have tc: "exact_top (heap ?s2) (Fork rlr c rr)"
      using q1(3) exact_top_same [OF q2(2) d(5) d(6) d(7)] by simp
    have ex: "exact ?h l \<longrightarrow> exact ?h r
        \<longrightarrow> exact (heap ?s2) (Fork (Fork l n rll) b (Fork rlr c rr))"
      using q2(3,4) tc exact_same [OF sd2 d(1)] exact_same [OF sd2 d(2)]
        exact_same [OF sd2 d(3)] exact_same [OF sd2 d(4)] r rl by simp
    have sd: "same_data ?h (heap ?s2) (set (nodes (Fork l n r)))"
      by (rule same_data_mono [OF sd2]) (auto simp: r rl)
    show ?thesis using br q2(1) sd ex RightLeft r rl hn r1b
      by (simp add: heights_nonneg_rotate_right heights_nonneg_rotate_left)
  qed
qed

section \<open>_balance preserves the keys and their order\<close>

lemma same_data_keys: "same_data h h' X \<Longrightarrow> keys_of h' t = keys_of h t"
  by (simp add: keys_of_def same_data_def)

lemma hole_parent_read:
  "wf_tree s (plug (Fork l n r) fs) \<Longrightarrow> parent (heap s n) = hole_parent fs"
  by (simp add: wf_tree_def rep_plug)

lemma balance_tree:
  assumes "wf_tree s (plug (Fork l n r) fs)" and "heights_nonneg (heap s)"
  shows "\<exists>s' t'. balance s n = Some (Inr s') \<and> wf_tree s' t'
    \<and> nodes t' = nodes (plug (Fork l n r) fs)
    \<and> same_data (heap s) (heap s') UNIV \<and> heights_nonneg (heap s')"
  using assms
proof (induction fs arbitrary: s l n r)
  case Nil
  from balance_rotations_tree [OF Nil.prems] obtain s1 where
    br: "balance_rotations s n = Inr s1"
    and wf1: "wf_tree s1 (plug (rotated (rotation_case (heap s) n) (Fork l n r)) [])"
    and sd: "same_data (heap s) (heap s1) (set (nodes (Fork l n r)))"
    and hn: "heights_nonneg (heap s1)" by blast
  have par: "parent (heap s n) = None" using hole_parent_read [OF Nil.prems(1)] by simp
  have b: "balance s n = Some (Inr s1)"
    by (subst balance.simps) (simp add: br par Let_def)
  have sd': "same_data (heap s) (heap s1) UNIV" by (rule same_data_mono [OF sd]) simp
  show ?case using b wf1 sd' hn nodes_rotated
    by (intro exI [of _ s1] exI [of _ "rotated (rotation_case (heap s) n) (Fork l n r)"]) simp
next
  case (Cons f fs)
  let ?t1 = "rotated (rotation_case (heap s) n) (Fork l n r)"
  from balance_rotations_tree [OF Cons.prems] obtain s1 where
    br: "balance_rotations s n = Inr s1"
    and wf1: "wf_tree s1 (plug ?t1 (f # fs))"
    and sd: "same_data (heap s) (heap s1) (set (nodes (Fork l n r)))"
    and hn: "heights_nonneg (heap s1)" by blast
  have par: "parent (heap s n) = Some (frame_node f)"
    using hole_parent_read [OF Cons.prems(1)] by simp
  have b: "balance s n = balance s1 (frame_node f)"
    by (subst balance.simps) (simp add: br par Let_def)
  have sd1: "same_data (heap s) (heap s1) UNIV" by (rule same_data_mono [OF sd]) simp
  show ?case
  proof (cases f)
    case (LeftOf p sib)
    with wf1 have "wf_tree s1 (plug (Fork ?t1 p sib) fs)" by simp
    from Cons.IH [OF this hn] obtain s' t' where
      r: "balance s1 p = Some (Inr s')" "wf_tree s' t'"
        "nodes t' = nodes (plug (Fork ?t1 p sib) fs)"
        "same_data (heap s1) (heap s') UNIV" "heights_nonneg (heap s')" by blast
    have n: "nodes t' = nodes (plug (Fork l n r) (f # fs))"
      using r(3) LeftOf nodes_rotated [of "rotation_case (heap s) n" "Fork l n r"]
      by (simp add: nodes_plug)
    have "same_data (heap s) (heap s') UNIV"
      using same_data_trans [OF sd1 r(4)] by simp
    then show ?thesis using b r(1,2,5) n LeftOf by auto
  next
    case (RightOf sib p)
    with wf1 have "wf_tree s1 (plug (Fork sib p ?t1) fs)" by simp
    from Cons.IH [OF this hn] obtain s' t' where
      r: "balance s1 p = Some (Inr s')" "wf_tree s' t'"
        "nodes t' = nodes (plug (Fork sib p ?t1) fs)"
        "same_data (heap s1) (heap s') UNIV" "heights_nonneg (heap s')" by blast
    have n: "nodes t' = nodes (plug (Fork l n r) (f # fs))"
      using r(3) RightOf nodes_rotated [of "rotation_case (heap s) n" "Fork l n r"]
      by (simp add: nodes_plug)
    have "same_data (heap s) (heap s') UNIV"
      using same_data_trans [OF sd1 r(4)] by simp
    then show ?thesis using b r(1,2,5) n RightOf by auto
  qed
qed

lemma wf_rotation_example:
  "wf_tree rotation_example
     (Fork (Fork (Fork Tip 6 Tip) 5 Tip) 0 (Fork Tip 1 (Fork (Fork Tip 3 Tip) 2 (Fork Tip 4 Tip))))"
  by code_simp

lemma keys_rotation_example:
  "keys_of (heap rotation_example)
     (Fork (Fork (Fork Tip 6 Tip) 5 Tip) 0 (Fork Tip 1 (Fork (Fork Tip 3 Tip) 2 (Fork Tip 4 Tip))))
   = [3, 5, 10, 20, 30, 40, 50]"
  by code_simp

text \<open>
  At the node 20 (address 1) of \<open>rotation_example\<close>, \<^verbatim>\<open>_balance\<close> rotates left: 40
  (address 2) takes the place of 20 under the root, 20 becomes its left child and takes
  30 (address 3) as right child.
\<close>

lemma balance_rotation_example:
  "rotation_case (heap rotation_example) 1 = RotateLeft
   \<and> (case balance rotation_example 1 of
        Some (Inr s) \<Rightarrow> root s = Some 0 \<and> right (heap s 0) = Some 2
          \<and> left (heap s 2) = Some 1 \<and> right (heap s 1) = Some 3
      | _ \<Rightarrow> False)"
  by code_simp

text \<open>
  Claim C5. For a tree in the store (links consistent, keys strictly increasing in
  order, stored heights at least 0) and a node of it, \<^verbatim>\<open>_balance\<close> returns, and the
  result is again a tree with the same nodes in the same order and with the key of every
  node unchanged: the multiset of keys is the same before and after, and the in-order
  key sequence is still strictly increasing.
\<close>

theorem balance_preserves_keys_and_order:
  assumes "wf_tree s t" and "n \<in> set (nodes t)" and "heights_nonneg (heap s)"
  shows "\<exists>s' t'. balance s n = Some (Inr s') \<and> wf_tree s' t'
    \<and> nodes t' = nodes t
    \<and> (\<forall>a. key (heap s' a) = key (heap s a))
    \<and> mset (keys_of (heap s') t') = mset (keys_of (heap s) t)
    \<and> keys_of (heap s') t' = keys_of (heap s) t
    \<and> sorted_wrt (<) (keys_of (heap s') t')"
proof -
  from in_shape_position [OF assms(2)] obtain l r fs where t: "t = plug (Fork l n r) fs"
    by blast
  from balance_tree [OF assms(1) [unfolded t] assms(3)] obtain s' t' where
    r: "balance s n = Some (Inr s')" "wf_tree s' t'" "nodes t' = nodes t"
      "same_data (heap s) (heap s') UNIV"
    using t by auto
  have k: "\<forall>a. key (heap s' a) = key (heap s a)" using r(4) by (simp add: same_data_def)
  have ks: "keys_of (heap s') t' = keys_of (heap s) t"
    using k r(3) by (simp add: keys_of_def)
  have "sorted_wrt (<) (keys_of (heap s') t')" using r(2) by (simp add: wf_tree_def)
  with r k ks show ?thesis by auto
qed

theorem balance_preserves_keys_and_order_witness:
  "wf_tree rotation_example
     (Fork (Fork (Fork Tip 6 Tip) 5 Tip) 0 (Fork Tip 1 (Fork (Fork Tip 3 Tip) 2 (Fork Tip 4 Tip))))
   \<and> heights_nonneg (heap rotation_example)
   \<and> rotation_case (heap rotation_example) 1 = RotateLeft
   \<and> (\<exists>s' t'. balance rotation_example 1 = Some (Inr s') \<and> wf_tree s' t'
        \<and> right (heap s' 0) = Some 2 \<and> left (heap s' 2) = Some 1
        \<and> right (heap s' 1) = Some 3
        \<and> nodes t' = [6, 5, 0, 1, 3, 2, 4]
        \<and> keys_of (heap s') t' = [3, 5, 10, 20, 30, 40, 50]
        \<and> mset (keys_of (heap s') t') = mset [3, 5, 10, 20, 30, 40, 50]
        \<and> sorted_wrt (<) (keys_of (heap s') t'))"
proof -
  let ?t = "Fork (Fork (Fork Tip 6 Tip) 5 Tip) 0
              (Fork Tip 1 (Fork (Fork Tip 3 Tip) 2 (Fork Tip 4 Tip)))"
  have n: "(1::nat) \<in> set (nodes ?t)" by simp
  from balance_preserves_keys_and_order
    [OF wf_rotation_example n heights_nonneg_rotation_example]
  obtain s' t' where r: "balance rotation_example 1 = Some (Inr s')" "wf_tree s' t'"
    "nodes t' = nodes ?t"
    "mset (keys_of (heap s') t') = mset (keys_of (heap rotation_example) ?t)"
    "keys_of (heap s') t' = keys_of (heap rotation_example) ?t"
    "sorted_wrt (<) (keys_of (heap s') t')"
    by blast
  from balance_rotation_example r(1)
  have l: "right (heap s' 0) = Some 2 \<and> left (heap s' 2) = Some 1
      \<and> right (heap s' 1) = Some 3" by simp
  have c: "rotation_case (heap rotation_example) 1 = RotateLeft"
    using balance_rotation_example by simp
  have "\<exists>s' t'. balance rotation_example 1 = Some (Inr s') \<and> wf_tree s' t'
        \<and> right (heap s' 0) = Some 2 \<and> left (heap s' 2) = Some 1
        \<and> right (heap s' 1) = Some 3
        \<and> nodes t' = [6, 5, 0, 1, 3, 2, 4]
        \<and> keys_of (heap s') t' = [3, 5, 10, 20, 30, 40, 50]
        \<and> mset (keys_of (heap s') t') = mset [3, 5, 10, 20, 30, 40, 50]
        \<and> sorted_wrt (<) (keys_of (heap s') t')"
    using r l by (intro exI [of _ s'] exI [of _ t'])
      (simp del: One_nat_def add: keys_rotation_example)
  with wf_rotation_example heights_nonneg_rotation_example c show ?thesis by blast
qed

section \<open>The rotations restore the balance of a shape\<close>

lemma ht_ge: "- 1 \<le> ht t"
  by (induction t) auto

lemma rotated_avl:
  assumes "avl l" and "avl r" and "\<bar>ht l - ht r\<bar> \<le> 2"
  shows "avl (rotated (shape_case (Fork l n r)) (Fork l n r))"
    and "ht (rotated (shape_case (Fork l n r)) (Fork l n r)) = ht (Fork l n r)
         \<or> ht (rotated (shape_case (Fork l n r)) (Fork l n r)) = ht (Fork l n r) - 1"
proof -
  have "avl (rotated (shape_case (Fork l n r)) (Fork l n r))
    \<and> (ht (rotated (shape_case (Fork l n r)) (Fork l n r)) = ht (Fork l n r)
         \<or> ht (rotated (shape_case (Fork l n r)) (Fork l n r)) = ht (Fork l n r) - 1)"
  proof (cases "ht l - ht r > 1")
    case True
    then obtain ll a lr where l: "l = Fork ll a lr"
      using ht_ge [of r] by (cases l) auto
    show ?thesis
    proof (cases "ht lr - ht ll > 0")
      case lrh: True
      then obtain lrl b lrr where lr: "lr = Fork lrl b lrr"
        using ht_ge [of ll] by (cases lr) auto
      show ?thesis using True lrh l lr assms by (simp; arith)
    next
      case False
      then show ?thesis using True l assms by (simp; arith)
    qed
  next
    case nl: False
    show ?thesis
    proof (cases "ht r - ht l > 1")
      case True
      then obtain rl c rr where r: "r = Fork rl c rr"
        using ht_ge [of l] by (cases r) auto
      show ?thesis
      proof (cases "ht rl - ht rr > 0")
        case rlh: True
        then obtain rll b rlr where rl: "rl = Fork rll b rlr"
          using ht_ge [of rr] by (cases rl) auto
        show ?thesis using nl True rlh r rl assms by (simp; arith)
      next
        case False
        then show ?thesis using nl True r assms by (simp; arith)
      qed
    next
      case False
      then show ?thesis using nl assms by auto
    qed
  qed
  then show "avl (rotated (shape_case (Fork l n r)) (Fork l n r))"
    and "ht (rotated (shape_case (Fork l n r)) (Fork l n r)) = ht (Fork l n r)
         \<or> ht (rotated (shape_case (Fork l n r)) (Fork l n r)) = ht (Fork l n r) - 1"
    by simp_all
qed

lemma shape_case_none:
  "shape_case (Fork l n r) = NoRotation \<longleftrightarrow> \<bar>ht l - ht r\<bar> \<le> 1"
  by (auto split: shape.splits)

lemma exact_sub:
  "exact h (Fork l a r) \<Longrightarrow> exact h l" "exact h (Fork l a r) \<Longrightarrow> exact h r"
  by simp_all

lemma rotation_case_exact:
  assumes "left (h n) = top l" and "right (h n) = top r" and "rep h (Some n) l"
    and "rep h (Some n) r" and "exact h l" and "exact h r"
  shows "rotation_case h n = shape_case (Fork l n r)"
proof -
  have lh: "left_height h n = ht l" and rh: "right_height h n = ht r"
    using assms by (simp_all add: child_reads exact_stored_height)
  have L: "\<And>ll a lr. l = Fork ll a lr \<Longrightarrow>
      left (h n) = Some a \<and> is_right_heavy h a 0 = (ht lr - ht ll > 0)"
    using assms by (auto simp: is_right_heavy_def child_reads exact_stored_height)
  have R: "\<And>rl c rr. r = Fork rl c rr \<Longrightarrow>
      right (h n) = Some c \<and> is_left_heavy h c 0 = (ht rl - ht rr > 0)"
    using assms by (auto simp: is_left_heavy_def child_reads exact_stored_height)
  show ?thesis
  proof (cases "ht l - ht r > 1")
    case True
    then obtain ll a lr where l: "l = Fork ll a lr"
      using ht_ge [of r] by (cases l) auto
    show ?thesis using True L [OF l] l lh rh
      by (simp add: rotation_case_def is_left_heavy_def)
  next
    case nl: False
    show ?thesis
    proof (cases "ht r - ht l > 1")
      case True
      then obtain rl c rr where r: "r = Fork rl c rr"
        using ht_ge [of l] by (cases r) auto
      show ?thesis using nl True R [OF r] r lh rh
        by (simp add: rotation_case_def is_left_heavy_def is_right_heavy_def)
    next
      case False
      then show ?thesis using nl lh rh
        by (simp add: rotation_case_def is_left_heavy_def is_right_heavy_def)
    qed
  qed
qed

section \<open>_balance where no node looks heavy\<close>

lemma balanced_read:
  assumes "left (heap s n) = top l" and "right (heap s n) = top r"
    and "\<bar>stored_height (heap s) l - stored_height (heap s) r\<bar> \<le> 1"
  shows "balance_rotations s n = Inr s"
proof -
  have "\<not> is_left_heavy (heap s) n 1" "\<not> is_right_heavy (heap s) n 1"
    using assms by (simp_all add: is_left_heavy_def is_right_heavy_def child_reads)
  then show ?thesis by (simp add: balance_rotations_def)
qed

lemma balance_inert:
  assumes "wf_tree s (plug (Fork l n r) fs)"
    and "\<bar>stored_height (heap s) l - stored_height (heap s) r\<bar> \<le> 1"
    and "calm (heap s) (height (heap s n)) fs"
  shows "balance s n = Some (Inr s)"
  using assms
proof (induction fs arbitrary: l n r)
  case Nil
  then have "left (heap s n) = top l" "right (heap s n) = top r" "parent (heap s n) = None"
    by (simp_all add: wf_tree_def)
  with Nil.prems(2) show ?case
    by (subst balance.simps) (simp add: balanced_read Let_def)
next
  case (Cons f fs)
  from Cons.prems(1) have lr: "left (heap s n) = top l" "right (heap s n) = top r"
    and par: "parent (heap s n) = Some (frame_node f)"
    by (simp_all add: wf_tree_def rep_plug)
  have b: "balance s n = balance s (frame_node f)"
    using lr par Cons.prems(2) by (subst balance.simps) (simp add: balanced_read Let_def)
  show ?case
  proof (cases f)
    case (LeftOf p sib)
    have "balance s p = Some (Inr s)"
      using Cons.prems LeftOf
      by (intro Cons.IH [of "Fork l n r" p sib]) (simp_all add: stored_height_def)
    with b LeftOf show ?thesis by simp
  next
    case (RightOf sib p)
    have "balance s p = Some (Inr s)"
      using Cons.prems RightOf
      by (intro Cons.IH [of sib p "Fork l n r"])
         (simp_all add: stored_height_def abs_minus_commute)
    with b RightOf show ?thesis by simp
  qed
qed

lemma ctx_ok_calm: "ctx_ok h g fs \<Longrightarrow> calm h g fs"
proof (induction fs arbitrary: g)
  case Nil
  show ?case by simp
next
  case (Cons f fs)
  then show ?case by (cases f) (auto simp: exact_stored_height)
qed

lemma above_ok_calm: "above_ok h e fs \<Longrightarrow> calm h e fs"
proof (cases fs)
  case Nil
  then show ?thesis by simp
next
  case (Cons f fs')
  assume "above_ok h e fs"
  with Cons show ?thesis by (cases f) (auto simp: exact_stored_height ctx_ok_calm)
qed

lemma ctx_ok_same:
  assumes "same_data h h' X" and "(set (before fs) \<union> set (after fs)) \<inter> X = {}"
  shows "ctx_ok h' g fs = ctx_ok h g fs"
  using assms(2)
proof (induction fs arbitrary: g)
  case Nil
  show ?case by simp
next
  case (Cons f fs)
  show ?case
  proof (cases f)
    case (LeftOf a sib)
    have d: "set (nodes sib) \<inter> X = {}" "a \<notin> X" "(set (before fs) \<union> set (after fs)) \<inter> X = {}"
      using Cons.prems LeftOf by auto
    have "height (h' a) = height (h a)" using assms(1) d(2) by (simp add: same_data_def)
    then show ?thesis
      using LeftOf exact_same [OF assms(1) d(1)] Cons.IH [OF d(3)] by simp
  next
    case (RightOf sib a)
    have d: "set (nodes sib) \<inter> X = {}" "a \<notin> X" "(set (before fs) \<union> set (after fs)) \<inter> X = {}"
      using Cons.prems RightOf by auto
    have "height (h' a) = height (h a)" using assms(1) d(2) by (simp add: same_data_def)
    then show ?thesis
      using RightOf exact_same [OF assms(1) d(1)] Cons.IH [OF d(3)] by simp
  qed
qed

lemma exact_avl_plug:
  "exact h (plug t fs) \<Longrightarrow> avl (plug t fs)
     \<Longrightarrow> exact h t \<and> avl t \<and> ctx_ok h (ht t) fs"
proof (induction fs arbitrary: t)
  case Nil
  then show ?case by simp
next
  case (Cons f fs)
  show ?case
  proof (cases f)
    case (LeftOf a sib)
    with Cons.prems have "exact h (plug (Fork t a sib) fs)" "avl (plug (Fork t a sib) fs)"
      by simp_all
    from Cons.IH [OF this] have
      e: "exact h (Fork t a sib)" and a: "avl (Fork t a sib)"
      and c: "ctx_ok h (ht (Fork t a sib)) fs" by simp_all
    have "height (h a) = ht (Fork t a sib)"
      using exact_stored_height [OF e] by (simp add: stored_height_def)
    moreover have "exact h sib" "exact h t" using e by simp_all
    moreover have "avl sib" "avl t" "\<bar>ht t - ht sib\<bar> \<le> 1" using a by auto
    ultimately show ?thesis using c LeftOf by simp
  next
    case (RightOf sib a)
    with Cons.prems have "exact h (plug (Fork sib a t) fs)" "avl (plug (Fork sib a t) fs)"
      by simp_all
    from Cons.IH [OF this] have
      e: "exact h (Fork sib a t)" and a: "avl (Fork sib a t)"
      and c: "ctx_ok h (ht (Fork sib a t)) fs" by simp_all
    have "height (h a) = ht (Fork sib a t)"
      using exact_stored_height [OF e] by (simp add: stored_height_def)
    moreover have "exact h sib" "exact h t" using e by simp_all
    moreover have "avl sib" "avl t" "\<bar>ht t - ht sib\<bar> \<le> 1" using a by auto
    ultimately show ?thesis using c RightOf by (simp add: max.commute)
  qed
qed

section \<open>_balance repairs the path above a repaired subtree\<close>

lemma ctx_disjoint:
  assumes "wf_tree s (plug t fs)"
  shows "(set (before fs) \<union> set (after fs)) \<inter> set (nodes t) = {}"
  using wf_tree_distinct [OF assms] by (auto simp: nodes_plug)

lemma step_up:
  assumes wf: "wf_tree s (plug (Fork l n r) fs)" and hn: "heights_nonneg (heap s)"
    and l: "avl l" "exact (heap s) l" and r: "avl r" "exact (heap s) r"
    and d: "\<bar>ht l - ht r\<bar> = 2" and c: "ctx_ok (heap s) g fs"
  shows "\<exists>s1 t1. balance_rotations s n = Inr s1 \<and> wf_tree s1 (plug t1 fs)
    \<and> heights_nonneg (heap s1) \<and> avl t1 \<and> exact (heap s1) t1
    \<and> set (nodes t1) = set (nodes (Fork l n r))
    \<and> (ht t1 = ht (Fork l n r) \<or> ht t1 = ht (Fork l n r) - 1)
    \<and> ctx_ok (heap s1) g fs"
proof -
  let ?t = "Fork l n r"
  from wf have R: "rep (heap s) (hole_parent fs) ?t" by (simp add: wf_tree_def rep_plug)
  have k: "rotation_case (heap s) n = shape_case ?t"
    using R l(2) r(2) by (intro rotation_case_exact) simp_all
  have nz: "shape_case ?t \<noteq> NoRotation" using d shape_case_none [of l n r] by simp
  from balance_rotations_tree [OF wf hn] k nz l(2) r(2) obtain s1 where
    br: "balance_rotations s n = Inr s1"
    and wf1: "wf_tree s1 (plug (rotated (shape_case ?t) ?t) fs)"
    and sd: "same_data (heap s) (heap s1) (set (nodes ?t))"
    and hn1: "heights_nonneg (heap s1)"
    and ex: "exact (heap s1) (rotated (shape_case ?t) ?t)" by auto
  have d2: "\<bar>ht l - ht r\<bar> \<le> 2" using d by simp
  note ra = rotated_avl [OF l(1) r(1) d2, of n]
  have ck: "ctx_ok (heap s1) g fs"
    using ctx_ok_same [OF sd ctx_disjoint [OF wf]] c by simp
  show ?thesis
    using br wf1 hn1 ra ex ck nodes_rotated [of "shape_case ?t" ?t]
    by (intro exI [of _ s1] exI [of _ "rotated (shape_case ?t) ?t"]) simp
qed

lemma climb:
  assumes "wf_tree s (plug T fs)" and "heights_nonneg (heap s)"
    and "avl T" and "exact (heap s) T" and "\<bar>ht T - g\<bar> \<le> 1" and "ctx_ok (heap s) g fs"
  shows "\<exists>s' T' fg.
      (case hole_parent fs of None \<Rightarrow> s' = s | Some p \<Rightarrow> balance s p = Some (Inr s'))
    \<and> wf_tree s' (plug T' fg) \<and> heights_nonneg (heap s')
    \<and> avl T' \<and> exact (heap s') T' \<and> set (nodes T) \<subseteq> set (nodes T')
    \<and> above_ok (heap s') (ht T') fg \<and> length fg \<le> length fs"
  using assms
proof (induction fs arbitrary: s T g)
  case Nil
  then show ?case
    by (intro exI [of _ s] exI [of _ T] exI [of _ "[]"]) simp
next
  case (Cons f fs)
  obtain p sib where f: "f = LeftOf p sib \<or> f = RightOf sib p" by (cases f) auto
  let ?t = "if f = LeftOf p sib then Fork T p sib else Fork sib p T"
  let ?l = "if f = LeftOf p sib then T else sib"
  let ?r = "if f = LeftOf p sib then sib else T"
  have t: "?t = Fork ?l p ?r" by simp
  have pl: "plug T (f # fs) = plug (Fork ?l p ?r) fs" using f by auto
  have wf: "wf_tree s (plug (Fork ?l p ?r) fs)" using Cons.prems(1) pl by simp
  from Cons.prems(6) f have sib: "avl sib" "exact (heap s) sib" "\<bar>g - ht sib\<bar> \<le> 1"
    and hp: "height (heap s p) = 1 + max g (ht sib)"
    and ck: "ctx_ok (heap s) (height (heap s p)) fs" by auto
  have lr: "avl ?l" "exact (heap s) ?l" "avl ?r" "exact (heap s) ?r"
    using sib Cons.prems(3,4) by simp_all
  have hts: "ht (Fork ?l p ?r) = 1 + max (ht T) (ht sib)" by (simp add: max.commute)
  have dle: "\<bar>ht ?l - ht ?r\<bar> \<le> 2" using sib(3) Cons.prems(5) by (simp; arith)
  have hpar: "hole_parent (f # fs) = Some p" using f by auto
  show ?case
  proof (cases "\<bar>ht ?l - ht ?r\<bar> \<le> 1")
    case True
    have "balance s p = Some (Inr s)"
    proof (rule balance_inert [OF wf])
      show "\<bar>stored_height (heap s) ?l - stored_height (heap s) ?r\<bar> \<le> 1"
        using True lr by (simp add: exact_stored_height)
      show "calm (heap s) (height (heap s p)) fs" by (rule ctx_ok_calm [OF ck])
    qed
    moreover have "above_ok (heap s) (ht T) (f # fs)"
      using f sib hp ck True Cons.prems(5) by (auto simp: abs_minus_commute; arith)
    ultimately show ?thesis using Cons.prems hpar
      by (intro exI [of _ s] exI [of _ T] exI [of _ "f # fs"]) simp
  next
    case False
    with dle have d: "\<bar>ht ?l - ht ?r\<bar> = 2" by arith
    from step_up [OF wf Cons.prems(2) lr(1,2) lr(3,4) d ck] obtain s1 t1 where
      br: "balance_rotations s p = Inr s1" and wf1: "wf_tree s1 (plug t1 fs)"
      and hn1: "heights_nonneg (heap s1)" and a1: "avl t1" and e1: "exact (heap s1) t1"
      and n1: "set (nodes t1) = set (nodes (Fork ?l p ?r))"
      and h1: "ht t1 = ht (Fork ?l p ?r) \<or> ht t1 = ht (Fork ?l p ?r) - 1"
      and c1: "ctx_ok (heap s1) (height (heap s p)) fs" by blast
    have dd: "\<bar>ht T - ht sib\<bar> = 2"
      using d f by (auto simp: abs_minus_commute split: if_splits)
    have h1': "ht t1 = 1 + max (ht T) (ht sib) \<or> ht t1 = max (ht T) (ht sib)"
      using h1 hts by auto
    have g1: "\<bar>ht t1 - height (heap s p)\<bar> \<le> 1"
      using h1' hp dd sib(3) Cons.prems(5) by arith
    from Cons.IH [OF wf1 hn1 a1 e1 g1 c1] obtain s' T' fg where
      r: "(case hole_parent fs of None \<Rightarrow> s' = s1 | Some q \<Rightarrow> balance s1 q = Some (Inr s'))"
        "wf_tree s' (plug T' fg)" "heights_nonneg (heap s')" "avl T'" "exact (heap s') T'"
        "set (nodes t1) \<subseteq> set (nodes T')" "above_ok (heap s') (ht T') fg"
        "length fg \<le> length fs" by blast
    have par: "parent (heap s p) = hole_parent fs" by (rule hole_parent_read [OF wf])
    have b: "balance s p = Some (Inr s')"
      using r(1) br par by (subst balance.simps) (simp add: Let_def split: option.splits)
    have "set (nodes T) \<subseteq> set (nodes (Fork ?l p ?r))" by auto
    then have sub: "set (nodes T) \<subseteq> set (nodes T')" using r(6) n1 by blast
    show ?thesis using b r(2,3,4,5,7,8) sub hpar
      by (intro exI [of _ s'] exI [of _ T'] exI [of _ fg]) simp
  qed
qed

lemma repair_at:
  assumes wf: "wf_tree s (plug (Fork l n r) fs)" and hn: "heights_nonneg (heap s)"
    and l: "avl l" "exact (heap s) l" and r: "avl r" "exact (heap s) r"
    and fresh: "exact_top (heap s) (Fork l n r)"
    and e: "edit_ok (ht l) (ht r) g" and c: "ctx_ok (heap s) g fs"
  shows "\<exists>s' T' fg. balance s n = Some (Inr s')
    \<and> wf_tree s' (plug T' fg) \<and> heights_nonneg (heap s')
    \<and> avl T' \<and> exact (heap s') T' \<and> n \<in> set (nodes T')
    \<and> above_ok (heap s') (ht T') fg \<and> length fg \<le> length fs"
proof -
  let ?t = "Fork l n r"
  have "\<exists>s1 t1. balance_rotations s n = Inr s1 \<and> wf_tree s1 (plug t1 fs)
    \<and> heights_nonneg (heap s1) \<and> avl t1 \<and> exact (heap s1) t1
    \<and> set (nodes t1) = set (nodes ?t) \<and> \<bar>ht t1 - g\<bar> \<le> 1 \<and> ctx_ok (heap s1) g fs"
  proof (cases "\<bar>ht l - ht r\<bar> \<le> 1")
    case True
    from wf have "left (heap s n) = top l" "right (heap s n) = top r"
      by (simp_all add: wf_tree_def rep_plug)
    moreover have "\<bar>stored_height (heap s) l - stored_height (heap s) r\<bar> \<le> 1"
      using True exact_stored_height [OF l(2)] exact_stored_height [OF r(2)] by simp
    ultimately have "balance_rotations s n = Inr s"
      by (rule balanced_read)
    moreover have "\<bar>ht ?t - g\<bar> \<le> 1" using e True by (auto simp: edit_ok_def)
    ultimately show ?thesis using wf hn l r fresh c True
      by (intro exI [of _ s] exI [of _ ?t]) simp
  next
    case False
    with e have d: "\<bar>ht l - ht r\<bar> = 2" and hg: "ht ?t = g \<or> ht ?t = g + 1"
      by (auto simp: edit_ok_def)
    from step_up [OF wf hn l r d c] obtain s1 t1 where
      s1: "balance_rotations s n = Inr s1" "wf_tree s1 (plug t1 fs)"
        "heights_nonneg (heap s1)" "avl t1" "exact (heap s1) t1"
        "set (nodes t1) = set (nodes ?t)"
        "ht t1 = ht ?t \<or> ht t1 = ht ?t - 1" "ctx_ok (heap s1) g fs" by blast
    have "\<bar>ht t1 - g\<bar> \<le> 1" using s1(7) hg by arith
    with s1 show ?thesis by blast
  qed
  then obtain s1 t1 where
    s1: "balance_rotations s n = Inr s1" "wf_tree s1 (plug t1 fs)"
      "heights_nonneg (heap s1)" "avl t1" "exact (heap s1) t1"
      "set (nodes t1) = set (nodes ?t)" "\<bar>ht t1 - g\<bar> \<le> 1" "ctx_ok (heap s1) g fs"
    by blast
  from climb [OF s1(2,3,4,5,7,8)] obtain s' T' fg where
    r: "(case hole_parent fs of None \<Rightarrow> s' = s1 | Some q \<Rightarrow> balance s1 q = Some (Inr s'))"
      "wf_tree s' (plug T' fg)" "heights_nonneg (heap s')" "avl T'" "exact (heap s') T'"
      "set (nodes t1) \<subseteq> set (nodes T')" "above_ok (heap s') (ht T') fg"
      "length fg \<le> length fs" by blast
  have par: "parent (heap s n) = hole_parent fs" by (rule hole_parent_read [OF wf])
  have b: "balance s n = Some (Inr s')"
    using r(1) s1(1) par by (subst balance.simps) (simp add: Let_def split: option.splits)
  have "n \<in> set (nodes T')" using r(6) s1(6) by auto
  with b r(2,3,4,5,7,8) show ?thesis by blast
qed

section \<open>The walk _update restores the invariant\<close>

lemma plug_plug: "plug (plug t fs1) fs2 = plug t (fs1 @ fs2)"
  by (induction t fs1 rule: plug.induct) simp_all

lemma calm_plug:
  "calm h (stored_height h t) fs1 \<Longrightarrow> calm h (stored_height h (plug t fs1)) fs2
     \<Longrightarrow> calm h (stored_height h t) (fs1 @ fs2)"
proof (induction fs1 arbitrary: t)
  case Nil
  then show ?case by simp
next
  case (Cons f fs1)
  show ?case
  proof (cases f)
    case (LeftOf a sib)
    with Cons.prems have "calm h (stored_height h (Fork t a sib)) fs1"
      "calm h (stored_height h (plug (Fork t a sib) fs1)) fs2"
      by (simp_all add: stored_height_def)
    from Cons.IH [OF this] Cons.prems(1) LeftOf show ?thesis
      by (simp add: stored_height_def)
  next
    case (RightOf sib a)
    with Cons.prems have "calm h (stored_height h (Fork sib a t)) fs1"
      "calm h (stored_height h (plug (Fork sib a t) fs1)) fs2"
      by (simp_all add: stored_height_def)
    from Cons.IH [OF this] Cons.prems(1) RightOf show ?thesis
      by (simp add: stored_height_def)
  qed
qed

lemma update_exact_id:
  assumes "exact_at h n"
  shows "update h n = h"
proof (rule ext)
  fix x
  show "update h n x = h x"
    using assms by (intro node.equality) (auto simp: update_fields exact_at_def)
qed

lemma walk_noop:
  assumes wf: "wf_tree s (plug (Fork l n r) (fT @ fg))"
    and a: "avl (plug (Fork l n r) fT)" and e: "exact (heap s) (plug (Fork l n r) fT)"
    and ab: "above_ok (heap s) (ht (plug (Fork l n r) fT)) fg"
  shows "tree_update s (Some n) = tree_update s (hole_parent (fT @ fg))"
proof -
  let ?h = "heap s"
  let ?t = "Fork l n r"
  from exact_avl_plug [OF e a] have et: "exact ?h ?t" and at: "avl ?t"
    and ck: "ctx_ok ?h (ht ?t) fT" by simp_all
  from wf have R: "rep ?h (hole_parent (fT @ fg)) ?t" by (simp add: wf_tree_def rep_plug)
  have "exact_at ?h n" using et R exact_at_top [of ?h n l r] by simp
  then have u: "s\<lparr>heap := update ?h n\<rparr> = s" by (simp add: update_exact_id)
  have st: "stored_height ?h ?t = ht ?t" by (rule exact_stored_height [OF et])
  have sT: "stored_height ?h (plug ?t fT) = ht (plug ?t fT)" by (rule exact_stored_height [OF e])
  have c1: "calm ?h (stored_height ?h ?t) fT" using ctx_ok_calm [OF ck] st by simp
  have c2: "calm ?h (stored_height ?h (plug ?t fT)) fg" using above_ok_calm [OF ab] sT by simp
  have c: "calm ?h (height (?h n)) (fT @ fg)"
    using calm_plug [OF c1 c2] by (simp add: stored_height_def)
  have d: "\<bar>stored_height ?h l - stored_height ?h r\<bar> \<le> 1"
    using et at by (simp add: exact_stored_height)
  have b: "balance s n = Some (Inr s)" by (rule balance_inert [OF wf d c])
  have par: "parent (?h n) = hole_parent (fT @ fg)" by (rule hole_parent_read [OF wf])
  show ?thesis by (subst tree_update.simps) (simp add: u b par)
qed

lemma walk_above:
  assumes G: "\<And>s l n r fs g. length fs < length fg \<Longrightarrow> wf_tree s (plug (Fork l n r) fs)
      \<Longrightarrow> heights_nonneg (heap s) \<Longrightarrow> avl l \<Longrightarrow> exact (heap s) l \<Longrightarrow> avl r
      \<Longrightarrow> exact (heap s) r \<Longrightarrow> edit_ok (ht l) (ht r) g \<Longrightarrow> ctx_ok (heap s) g fs
      \<Longrightarrow> walk_ok s (Some n)"
    and "wf_tree s (plug (Fork l n r) (fT @ fg))" and "heights_nonneg (heap s)"
    and "avl (plug (Fork l n r) fT)" and "exact (heap s) (plug (Fork l n r) fT)"
    and "above_ok (heap s) (ht (plug (Fork l n r) fT)) fg"
  shows "walk_ok s (Some n)"
  using assms(2-)
proof (induction fT arbitrary: l n r)
  case Nil
  let ?T = "Fork l n r"
  from Nil.prems have wf: "wf_tree s (plug ?T fg)" and a: "avl ?T" and e: "exact (heap s) ?T"
    and ab: "above_ok (heap s) (ht ?T) fg" by simp_all
  have step: "tree_update s (Some n) = tree_update s (hole_parent fg)"
    using walk_noop [of s l n r "[]" fg] Nil.prems by simp
  show ?case
  proof (cases fg)
    case Nil
    have "avl_state s ?T" using wf a e Nil.prems(2) Nil by (simp add: avl_state_def)
    moreover have "tree_update s None = Some (Inr s)" by (subst tree_update.simps) simp
    ultimately show ?thesis using step Nil by (auto simp: walk_ok_def)
  next
    case (Cons f fs)
    show ?thesis
    proof (cases f)
      case (LeftOf p sib)
      have "walk_ok s (Some p)"
      proof (rule G [of fs s ?T p sib "height (heap s p)"])
        show "length fs < length fg" using Cons by simp
        show "wf_tree s (plug (Fork ?T p sib) fs)" using wf Cons LeftOf by simp
        show "heights_nonneg (heap s)" by (rule Nil.prems(2))
        show "avl ?T" by (rule a)
        show "exact (heap s) ?T" by (rule e)
        show "avl sib" "exact (heap s) sib" "ctx_ok (heap s) (height (heap s p)) fs"
          using ab Cons LeftOf by simp_all
        show "edit_ok (ht ?T) (ht sib) (height (heap s p))"
          using ab Cons LeftOf by (simp add: edit_ok_def)
      qed
      then show ?thesis using step Cons LeftOf by (simp add: walk_ok_def)
    next
      case (RightOf sib p)
      have "walk_ok s (Some p)"
      proof (rule G [of fs s sib p ?T "height (heap s p)"])
        show "length fs < length fg" using Cons by simp
        show "wf_tree s (plug (Fork sib p ?T) fs)" using wf Cons RightOf by simp
        show "heights_nonneg (heap s)" by (rule Nil.prems(2))
        show "avl ?T" by (rule a)
        show "exact (heap s) ?T" by (rule e)
        show "avl sib" "exact (heap s) sib" "ctx_ok (heap s) (height (heap s p)) fs"
          using ab Cons RightOf by simp_all
        show "edit_ok (ht sib) (ht ?T) (height (heap s p))"
          using ab Cons RightOf by (simp add: edit_ok_def abs_minus_commute max.commute)
      qed
      then show ?thesis using step Cons RightOf by (simp add: walk_ok_def)
    qed
  qed
next
  case (Cons f fT)
  have step: "tree_update s (Some n) = tree_update s (Some (frame_node f))"
    using walk_noop [OF Cons.prems(1,3,4,5)] by simp
  show ?case
  proof (cases f)
    case (LeftOf p sib)
    have "walk_ok s (Some p)"
      using Cons.prems LeftOf by (intro Cons.IH [of "Fork l n r" p sib]) simp_all
    then show ?thesis using step LeftOf by (simp add: walk_ok_def)
  next
    case (RightOf sib p)
    have "walk_ok s (Some p)"
      using Cons.prems RightOf by (intro Cons.IH [of sib p "Fork l n r"]) simp_all
    then show ?thesis using step RightOf by (simp add: walk_ok_def)
  qed
qed

lemma wf_tree_update: "wf_tree (s\<lparr>heap := update (heap s) n\<rparr>) t = wf_tree s t"
proof -
  have "rep (update (heap s) n) None t = rep (heap s) None t"
    by (intro rep_cong) (simp add: links_eq_def update_fields)
  then show ?thesis by (simp add: wf_tree_def keys_of_def update_fields)
qed

lemma same_data_update: "same_data h (update h n) {n}"
  by (simp add: same_data_def update_fields)

lemma walk_edit:
  assumes "wf_tree s (plug (Fork l n r) fs)" and "heights_nonneg (heap s)"
    and "avl l" and "exact (heap s) l" and "avl r" and "exact (heap s) r"
    and "edit_ok (ht l) (ht r) g" and "ctx_ok (heap s) g fs"
  shows "walk_ok s (Some n)"
  using assms
proof (induction "length fs" arbitrary: s l n r fs g rule: less_induct)
  case less
  let ?t = "Fork l n r"
  let ?u = "s\<lparr>heap := update (heap s) n\<rparr>"
  have wfu: "wf_tree ?u (plug ?t fs)" using less.prems(1) by (simp add: wf_tree_update)
  have hnu: "heights_nonneg (heap ?u)" using less.prems(2) by (simp add: heights_nonneg_update)
  have sd: "same_data (heap s) (heap ?u) {n}" by (simp add: same_data_update)
  have dist: "distinct (before fs @ nodes l @ n # nodes r @ after fs)"
    using wf_tree_distinct [OF less.prems(1)] by (simp add: nodes_plug)
  have dl: "set (nodes l) \<inter> {n} = {}" and dr: "set (nodes r) \<inter> {n} = {}"
    and dc: "(set (before fs) \<union> set (after fs)) \<inter> {n} = {}"
    using dist by auto
  have lu: "exact (heap ?u) l" using exact_same [OF sd dl] less.prems(4) by simp
  have ru: "exact (heap ?u) r" using exact_same [OF sd dr] less.prems(6) by simp
  have cu: "ctx_ok (heap ?u) g fs" using ctx_ok_same [OF sd dc] less.prems(8) by simp
  from less.prems(1) have R: "rep (heap s) (hole_parent fs) ?t"
    by (simp add: wf_tree_def rep_plug)
  have "left (heap s n) \<noteq> Some n" "right (heap s n) \<noteq> Some n"
    using R dist top_in_nodes [of l n] top_in_nodes [of r n] by auto
  then have "exact_at (update (heap s) n) n" by (rule exact_at_update_self)
  moreover from wfu have "rep (heap ?u) (hole_parent fs) ?t"
    by (simp add: wf_tree_def rep_plug)
  ultimately have fresh: "exact_top (heap ?u) ?t"
    using exact_at_top [of "heap ?u" n l r] by simp
  from repair_at [OF wfu hnu less.prems(3) lu less.prems(5) ru fresh less.prems(7) cu]
  obtain s' T' fg where
    b: "balance ?u n = Some (Inr s')" and wf': "wf_tree s' (plug T' fg)"
    and hn': "heights_nonneg (heap s')" and a': "avl T'" and e': "exact (heap s') T'"
    and n': "n \<in> set (nodes T')" and ab: "above_ok (heap s') (ht T') fg"
    and len: "length fg \<le> length fs" by blast
  from in_shape_position [OF n'] obtain l' r' fT where T': "T' = plug (Fork l' n r') fT"
    by blast
  have wf2: "wf_tree s' (plug (Fork l' n r') (fT @ fg))" using wf' T' by (simp add: plug_plug)
  have par: "parent (heap s' n) = hole_parent (fT @ fg)" by (rule hole_parent_read [OF wf2])
  have "tree_update s (Some n) = tree_update s' (parent (heap s' n))"
    by (subst tree_update.simps) (simp add: b)
  also have "\<dots> = tree_update s' (Some n)"
    using walk_noop [OF wf2] a' e' ab T' par by simp
  finally have same: "tree_update s (Some n) = tree_update s' (Some n)" .
  have "walk_ok s' (Some n)"
  proof (rule walk_above [of fg s' l' n r' fT])
    fix s l n r fs' g
    assume "length fs' < length fg" and p: "wf_tree s (plug (Fork l n r) fs')"
      "heights_nonneg (heap s)" "avl l" "exact (heap s) l" "avl r" "exact (heap s) r"
      "edit_ok (ht l) (ht r) g" "ctx_ok (heap s) g fs'"
    then have "length fs' < length fs" using len by simp
    from less.hyps [OF this p] show "walk_ok s (Some n)" .
  next
    show "wf_tree s' (plug (Fork l' n r') (fT @ fg))" by (rule wf2)
    show "heights_nonneg (heap s')" by (rule hn')
    show "avl (plug (Fork l' n r') fT)" using a' T' by simp
    show "exact (heap s') (plug (Fork l' n r') fT)" using e' T' by simp
    show "above_ok (heap s') (ht (plug (Fork l' n r') fT)) fg" using ab T' by simp
  qed
  then show ?case using same by (simp add: walk_ok_def)
qed

section \<open>is_balanced on a balanced tree with exact bookkeeping\<close>

lemma not_heavy_exact:
  assumes "left (h a) = top l" and "right (h a) = top r" and "exact h l" and "exact h r"
    and "\<bar>ht l - ht r\<bar> \<le> 1"
  shows "\<not> is_heavy h a"
  using assms by (simp add: is_heavy_def child_reads exact_stored_height)

lemma is_balanced_subtree:
  "rep (heap s) par t \<Longrightarrow> exact (heap s) t \<Longrightarrow> avl t \<Longrightarrow> top t = Some a
     \<Longrightarrow> is_balanced s (Some a) = Some (Inr True)"
proof (induction t arbitrary: par a)
  case Tip
  then show ?case by simp
next
  case (Fork l b r)
  then have ab: "a = b" by simp
  from Fork.prems have lk: "left (heap s b) = top l" "right (heap s b) = top r"
    and Rl: "rep (heap s) (Some b) l" and Rr: "rep (heap s) (Some b) r"
    and el: "exact (heap s) l" and er: "exact (heap s) r"
    and al: "avl l" and ar: "avl r" and d: "\<bar>ht l - ht r\<bar> \<le> 1" by simp_all
  have nh: "\<not> is_heavy (heap s) b" by (rule not_heavy_exact [OF lk el er d])
  have L: "(if left (heap s b) \<noteq> None then is_balanced s (left (heap s b))
            else Some (Inr True)) = Some (Inr True)"
  proof (cases l)
    case Tip
    then show ?thesis using lk by simp
  next
    case (Fork ll x lr)
    then have "top l = Some x" by simp
    from Fork.IH(1) [OF Rl el al this] lk Fork show ?thesis by simp
  qed
  have Rt: "(if right (heap s b) \<noteq> None then is_balanced s (right (heap s b))
            else Some (Inr True)) = Some (Inr True)"
  proof (cases r)
    case Tip
    then show ?thesis using lk by simp
  next
    case (Fork rl x rr)
    then have "top r = Some x" by simp
    from Fork.IH(2) [OF Rr er ar this] lk Fork show ?thesis by simp
  qed
  show ?case
    unfolding ab using nh L Rt by (subst is_balanced.simps) (simp split: if_splits)
qed

lemma is_balanced_root:
  assumes "root s = Some a"
  shows "is_balanced s None = is_balanced s (Some a)"
  by (subst is_balanced.simps, subst (2) is_balanced.simps) (simp add: assms)

lemma avl_state_is_balanced:
  assumes "avl_state s t" and "root s \<noteq> None"
  shows "is_balanced s None = Some (Inr True)"
proof -
  from assms obtain a where a: "root s = Some a" by auto
  with assms(1) have "top t = Some a" by (simp add: avl_state_def wf_tree_def)
  with assms(1) have "is_balanced s (Some a) = Some (Inr True)"
    by (intro is_balanced_subtree [of s None t]) (simp_all add: avl_state_def wf_tree_def)
  with is_balanced_root [OF a] show ?thesis by simp
qed

lemma not_heavy_nodes:
  "rep h par t \<Longrightarrow> exact h t \<Longrightarrow> avl t \<Longrightarrow> a \<in> set (nodes t) \<Longrightarrow> \<not> is_heavy h a"
proof (induction t arbitrary: par)
  case Tip
  then show ?case by simp
next
  case (Fork l b r)
  from Fork.prems have lk: "left (h b) = top l" "right (h b) = top r"
    and Rl: "rep h (Some b) l" and Rr: "rep h (Some b) r"
    and el: "exact h l" and er: "exact h r"
    and al: "avl l" and ar: "avl r" and d: "\<bar>ht l - ht r\<bar> \<le> 1" by simp_all
  from Fork.prems(4) consider "a = b" | "a \<in> set (nodes l)" | "a \<in> set (nodes r)" by auto
  then show ?case
  proof cases
    case 1
    then show ?thesis using not_heavy_exact [OF lk el er d] by simp
  next
    case 2
    from Fork.IH(1) [OF Rl el al 2] show ?thesis .
  next
    case 3
    from Fork.IH(2) [OF Rr er ar 3] show ?thesis .
  qed
qed

section \<open>Insert: the new leaf and the state it leaves for the walk\<close>

lemma before_after_append:
  "before (fs @ [LeftOf a r]) = before fs"
  "after (fs @ [LeftOf a r]) = after fs @ a # nodes r"
  "before (fs @ [RightOf l a]) = nodes l @ a # before fs"
  "after (fs @ [RightOf l a]) = after fs"
  by (induction fs rule: before.induct) simp_all

lemma hd_frame_append: "fs \<noteq> [] \<Longrightarrow> hd (fs @ gs) = hd fs"
  by simp

lemma find_parent_position:
  assumes "rep h par t" and "t \<noteq> Tip" and "top t = Some p0"
    and "sorted_wrt (<) (keys_of h t)" and "k \<notin> set (keys_of h t)"
  shows "\<exists>fs. fs \<noteq> [] \<and> t = plug Tip fs
    \<and> find_parent h p0 k = Some (frame_node (hd fs))
    \<and> (case hd fs of LeftOf p r \<Rightarrow> k < key (h p) | RightOf l p \<Rightarrow> \<not> k < key (h p))
    \<and> sorted_wrt (<) (map (\<lambda>x. key (h x)) (before fs) @ k # map (\<lambda>x. key (h x)) (after fs))"
  using assms
proof (induction t arbitrary: par p0)
  case Tip
  then show ?case by simp
next
  case (Fork l p r)
  then have p0: "p0 = p" by simp
  from Fork.prems have lk: "left (h p) = top l" "right (h p) = top r"
    and Rl: "rep h (Some p) l" and Rr: "rep h (Some p) r" by simp_all
  from Fork.prems(4) have sl: "sorted_wrt (<) (keys_of h l)" and sr: "sorted_wrt (<) (keys_of h r)"
    and lp: "\<forall>x \<in> set (keys_of h l). x < key (h p)"
    and pr: "\<forall>x \<in> set (keys_of h r). key (h p) < x"
    and lr: "\<forall>x \<in> set (keys_of h l). \<forall>y \<in> set (keys_of h r). x < y"
    by (auto simp: keys_of_def sorted_wrt_append)
  from Fork.prems(5) have kl: "k \<notin> set (keys_of h l)" and kr: "k \<notin> set (keys_of h r)"
    and kp: "k \<noteq> key (h p)" by (auto simp: keys_of_def)
  show ?case
  proof (cases "k < key (h p)")
    case True
    show ?thesis
    proof (cases l)
      case Tip
      have "find_parent h p k = Some p"
        using True lk Tip by (subst find_parent.simps) simp
      moreover have "sorted_wrt (<) (k # key (h p) # map (\<lambda>x. key (h x)) (nodes r))"
        using True sr pr by (auto simp: keys_of_def)
      ultimately show ?thesis using True Tip p0
        by (intro exI [of _ "[LeftOf p r]"]) simp
    next
      case (Fork ll q lr')
      then have tl: "top l = Some q" "l \<noteq> Tip" by simp_all
      from Fork.IH(1) [OF Rl tl(2) tl(1) sl kl] obtain fs where
        fs: "fs \<noteq> []" "l = plug Tip fs" "find_parent h q k = Some (frame_node (hd fs))"
          "case hd fs of LeftOf p r \<Rightarrow> k < key (h p) | RightOf l p \<Rightarrow> \<not> k < key (h p)"
          "sorted_wrt (<) (map (\<lambda>x. key (h x)) (before fs) @ k # map (\<lambda>x. key (h x)) (after fs))"
        by blast
      have nl: "set (before fs) \<union> set (after fs) = set (nodes l)"
        using fs(2) nodes_plug [of Tip fs] by auto
      have f: "find_parent h p k = Some (frame_node (hd fs))"
        using True lk tl fs(3) by (subst find_parent.simps) simp
      have inl: "\<And>x. x \<in> set (before fs) \<or> x \<in> set (after fs) \<Longrightarrow> x \<in> set (nodes l)"
        using nl by auto
      have b1: "\<forall>x \<in> set (before fs) \<union> set (after fs). key (h x) < key (h p)"
        using lp inl by (auto simp: keys_of_def)
      have b2: "\<forall>x \<in> set (before fs) \<union> set (after fs). \<forall>y \<in> set (nodes r). key (h x) < key (h y)"
        using lr inl by (auto simp: keys_of_def)
      have "sorted_wrt (<) (map (\<lambda>x. key (h x)) (before fs) @ k
          # map (\<lambda>x. key (h x)) (after fs @ p # nodes r))"
        using fs(5) True sr pr b1 b2
        by (auto simp: sorted_wrt_append keys_of_def)
      then show ?thesis using fs(1,2,4) f p0
        by (intro exI [of _ "fs @ [LeftOf p r]"])
           (simp add: plug_append_left before_after_append)
    qed
  next
    case False
    with kp have gt: "key (h p) < k" by simp
    show ?thesis
    proof (cases r)
      case Tip
      have "find_parent h p k = Some p"
        using False lk Tip by (subst find_parent.simps) simp
      moreover have "sorted_wrt (<) (map (\<lambda>x. key (h x)) (nodes l) @ [key (h p), k])"
        using gt sl lp by (auto simp: keys_of_def sorted_wrt_append)
      ultimately show ?thesis using False Tip p0
        by (intro exI [of _ "[RightOf l p]"]) simp
    next
      case (Fork rl q rr)
      then have tr: "top r = Some q" "r \<noteq> Tip" by simp_all
      from Fork.IH(2) [OF Rr tr(2) tr(1) sr kr] obtain fs where
        fs: "fs \<noteq> []" "r = plug Tip fs" "find_parent h q k = Some (frame_node (hd fs))"
          "case hd fs of LeftOf p r \<Rightarrow> k < key (h p) | RightOf l p \<Rightarrow> \<not> k < key (h p)"
          "sorted_wrt (<) (map (\<lambda>x. key (h x)) (before fs) @ k # map (\<lambda>x. key (h x)) (after fs))"
        by blast
      have nr: "set (before fs) \<union> set (after fs) = set (nodes r)"
        using fs(2) nodes_plug [of Tip fs] by auto
      have f: "find_parent h p k = Some (frame_node (hd fs))"
        using False lk tr fs(3) by (subst find_parent.simps) simp
      have inr: "\<And>x. x \<in> set (before fs) \<or> x \<in> set (after fs) \<Longrightarrow> x \<in> set (nodes r)"
        using nr by auto
      have b1: "\<forall>x \<in> set (before fs) \<union> set (after fs). key (h p) < key (h x)"
        using pr inr by (auto simp: keys_of_def)
      have b2: "\<forall>x \<in> set (nodes l). \<forall>y \<in> set (before fs) \<union> set (after fs). key (h x) < key (h y)"
        using lr inr by (auto simp: keys_of_def)
      have "sorted_wrt (<) (map (\<lambda>x. key (h x)) (nodes l @ p # before fs) @ k
          # map (\<lambda>x. key (h x)) (after fs))"
        using fs(5) gt sl lp b1 b2
        by (auto simp: sorted_wrt_append keys_of_def)
      then show ?thesis using fs(1,2,4) f p0
        by (intro exI [of _ "fs @ [RightOf l p]"])
           (simp add: plug_append_right before_after_append)
    qed
  qed
qed

lemma stored_agree:
  assumes "\<And>x. x \<in> set (nodes t) \<Longrightarrow> h' x = h x"
  shows "stored_height h' t = stored_height h t" "stored_weight h' t = stored_weight h t"
  using assms by (cases t; simp add: stored_height_def stored_weight_def)+

lemma exact_agree:
  "(\<And>x. x \<in> set (nodes t) \<Longrightarrow> h' x = h x) \<Longrightarrow> exact h' t = exact h t"
proof (induction t)
  case Tip
  show ?case by simp
next
  case (Fork l a r)
  have "exact h' l = exact h l" by (rule Fork.IH(1)) (simp add: Fork.prems)
  moreover have "exact h' r = exact h r" by (rule Fork.IH(2)) (simp add: Fork.prems)
  moreover have "stored_height h' l = stored_height h l" "stored_weight h' l = stored_weight h l"
    by (rule stored_agree; simp add: Fork.prems)+
  moreover have "stored_height h' r = stored_height h r" "stored_weight h' r = stored_weight h r"
    by (rule stored_agree; simp add: Fork.prems)+
  moreover have "h' a = h a" using Fork.prems by simp
  ultimately show ?case by simp
qed

lemma ctx_ok_agree:
  "(\<And>x. x \<in> set (before fs) \<union> set (after fs) \<Longrightarrow> h' x = h x)
     \<Longrightarrow> ctx_ok h' g fs = ctx_ok h g fs"
proof (induction fs arbitrary: g)
  case Nil
  show ?case by simp
next
  case (Cons f fs)
  show ?case
  proof (cases f)
    case (LeftOf a sib)
    have "exact h' sib = exact h sib" using Cons.prems LeftOf by (intro exact_agree) auto
    moreover have "h' a = h a" using Cons.prems LeftOf by auto
    moreover have "\<And>g. ctx_ok h' g fs = ctx_ok h g fs"
      using Cons.prems LeftOf by (intro Cons.IH) auto
    ultimately show ?thesis using LeftOf by simp
  next
    case (RightOf sib a)
    have "exact h' sib = exact h sib" using Cons.prems RightOf by (intro exact_agree) auto
    moreover have "h' a = h a" using Cons.prems RightOf by auto
    moreover have "\<And>g. ctx_ok h' g fs = ctx_ok h g fs"
      using Cons.prems RightOf by (intro Cons.IH) auto
    ultimately show ?thesis using RightOf by simp
  qed
qed

lemma attach_leaf_edit:
  assumes st: "avl_state s t" and a: "a \<notin> set (nodes t)"
    and k: "k \<notin> set (keys_of (heap s) t)"
  shows "\<exists>s1 fs. attach_leaf s a k = Some s1 \<and> wf_tree s1 (plug (Fork Tip a Tip) fs)
    \<and> heights_nonneg (heap s1) \<and> ctx_ok (heap s1) (- 1) fs"
proof -
  let ?h = "heap s"
  let ?hn = "?h(a := create_node k)"
  from st have wf: "wf_tree s t" and av: "avl t" and ex: "exact ?h t"
    and hn: "heights_nonneg ?h" by (simp_all add: avl_state_def)
  have agree: "\<And>x. x \<in> set (nodes t) \<Longrightarrow> ?hn x = ?h x" using a by auto
  have hn0: "heights_nonneg ?hn" using hn by (simp add: heights_nonneg_def create_node_def)
  have a0: "key (?hn a) = k" "left (?hn a) = None" "right (?hn a) = None"
    "parent (?hn a) = None" by (simp_all add: create_node_def)
  show ?thesis
  proof (cases t)
    case Tip
    with wf have "root s = None" by (simp add: wf_tree_def)
    then have "attach_leaf s a k = Some (s\<lparr>heap := ?hn, root := Some a\<rparr>)"
      by (simp add: attach_leaf_def)
    moreover have "wf_tree (s\<lparr>heap := ?hn, root := Some a\<rparr>) (plug (Fork Tip a Tip) [])"
      using a0 by (simp add: wf_tree_def keys_of_def)
    ultimately show ?thesis using hn0
      by (intro exI [of _ "s\<lparr>heap := ?hn, root := Some a\<rparr>"] exI [of _ "[]"]) simp
  next
    case (Fork l0 p0 r0)
    then have tp: "top t = Some p0" "t \<noteq> Tip" by simp_all
    with wf have rt: "root s = Some p0" by (simp add: wf_tree_def)
    have R0: "rep ?hn None t"
      using wf rep_cong [of t ?h ?hn None] agree by (simp add: wf_tree_def links_eq_def)
    have K0: "keys_of ?hn t = keys_of ?h t" using agree by (simp add: keys_of_def)
    have S0: "sorted_wrt (<) (keys_of ?hn t)" using wf K0 by (simp add: wf_tree_def)
    have k0: "k \<notin> set (keys_of ?hn t)" using k K0 by simp
    from find_parent_position [OF R0 tp(2) tp(1) S0 k0] obtain fs where
      fs: "fs \<noteq> []" "t = plug Tip fs" "find_parent ?hn p0 k = Some (frame_node (hd fs))"
        "case hd fs of LeftOf p r \<Rightarrow> k < key (?hn p) | RightOf l p \<Rightarrow> \<not> k < key (?hn p)"
        "sorted_wrt (<) (map (\<lambda>x. key (?hn x)) (before fs) @ k # map (\<lambda>x. key (?hn x)) (after fs))"
      by blast
    from fs(1) obtain f fs' where f: "fs = f # fs'" by (cases fs) auto
    let ?p = "frame_node f"
    let ?hc = "add_child ?hn ?p a"
    let ?sc = "s\<lparr>heap := ?hc\<rparr>"
    have at: "attach_leaf s a k = Some ?sc"
      using rt fs(3) f by (simp add: attach_leaf_def)
    have nt: "nodes t = before fs @ after fs" using fs(2) by (simp add: nodes_plug)
    have dist: "distinct (before fs @ after fs)" using wf_tree_distinct [OF wf] nt by simp
    have pin: "?p \<in> set (before fs) \<union> set (after fs)"
      using hole_parent_in_ctx [of fs ?p] f by simp
    have pa: "?p \<noteq> a" using pin a nt by auto
    have lk: "\<And>x. x \<noteq> ?p \<Longrightarrow> x \<noteq> a \<Longrightarrow> links_eq ?hn ?hc x"
      by (simp add: links_eq_def add_child_fields)
    from R0 fs(2) have C0: "ctx_rep ?hn fs None" by (simp add: rep_plug)
    have Ra: "rep ?hc (hole_parent fs) (Fork Tip a Tip)"
      using a0 pa f by (simp add: add_child_fields)
    have C1: "ctx_rep ?hc fs (Some a)"
    proof (cases f)
      case (LeftOf p sib)
      have d: "p \<notin> set (nodes sib)" "p \<notin> set (before fs') \<union> set (after fs')"
        "a \<notin> set (nodes sib)" "a \<notin> set (before fs') \<union> set (after fs')"
        using dist a nt f LeftOf by auto
      have S: "rep ?hc (Some p) sib = rep ?hn (Some p) sib"
        using d LeftOf by (intro rep_cong lk) auto
      have F: "ctx_rep ?hc fs' (Some p) = ctx_rep ?hn fs' (Some p)"
        using d LeftOf by (intro ctx_rep_cong lk) auto
      show ?thesis using C0 S F f LeftOf fs(4) a0 pa
        by (simp add: add_child_fields)
    next
      case (RightOf sib p)
      have d: "p \<notin> set (nodes sib)" "p \<notin> set (before fs') \<union> set (after fs')"
        "a \<notin> set (nodes sib)" "a \<notin> set (before fs') \<union> set (after fs')"
        using dist a nt f RightOf by auto
      have S: "rep ?hc (Some p) sib = rep ?hn (Some p) sib"
        using d RightOf by (intro rep_cong lk) auto
      have F: "ctx_rep ?hc fs' (Some p) = ctx_rep ?hn fs' (Some p)"
        using d RightOf by (intro ctx_rep_cong lk) auto
      show ?thesis using C0 S F f RightOf fs(4) a0 pa
        by (simp add: add_child_fields)
    qed
    have root1: "root ?sc = top (plug (Fork Tip a Tip) fs)"
      using rt tp(1) fs(2) top_plug [OF fs(1), of "Fork Tip a Tip" Tip] by simp
    have keys1: "sorted_wrt (<) (keys_of ?hc (plug (Fork Tip a Tip) fs))"
      using fs(5) a0 by (simp add: keys_of_def nodes_plug add_child_fields)
    have wf1: "wf_tree ?sc (plug (Fork Tip a Tip) fs)"
      using Ra C1 root1 keys1 by (simp add: wf_tree_def rep_plug)
    have hn1: "heights_nonneg ?hc" using hn0 by (simp add: heights_nonneg_links)
    have "ctx_ok ?h (ht Tip) fs" using exact_avl_plug [of ?h Tip fs] ex av fs(2) by simp
    then have "ctx_ok ?hn (- 1) fs"
      using ctx_ok_agree [of fs ?hn ?h "- 1"] agree nt by simp
    moreover have "same_data ?hn ?hc {}" by (simp add: same_data_def add_child_fields)
    ultimately have ck: "ctx_ok ?hc (- 1) fs" using ctx_ok_same [of ?hn ?hc "{}" fs "- 1"] by simp
    show ?thesis using at wf1 hn1 ck by (intro exI [of _ ?sc] exI [of _ fs]) simp
  qed
qed

lemma insert_key_avl:
  assumes "avl_state s t" and "a \<notin> set (nodes t)" and "k \<notin> set (keys_of (heap s) t)"
  shows "\<exists>s' t'. insert_key s a k = Some (Inr s') \<and> avl_state s' t'"
proof -
  from attach_leaf_edit [OF assms] obtain s1 fs where
    s1: "attach_leaf s a k = Some s1" "wf_tree s1 (plug (Fork Tip a Tip) fs)"
      "heights_nonneg (heap s1)" "ctx_ok (heap s1) (- 1) fs" by blast
  have "edit_ok (ht Tip) (ht Tip) (- 1)" by (simp add: edit_ok_def)
  from walk_edit [OF s1(2,3) _ _ _ _ this s1(4)] have "walk_ok s1 (Some a)" by simp
  then show ?thesis using s1(1) by (simp add: walk_ok_def insert_key_def)
qed

section \<open>Delete: the state after a splice-out\<close>

lemma stored_book:
  assumes "\<And>x. x \<in> set (nodes t) \<Longrightarrow> height (h' x) = height (h x) \<and> weight (h' x) = weight (h x)"
  shows "stored_height h' t = stored_height h t" "stored_weight h' t = stored_weight h t"
  using assms by (cases t; simp add: stored_height_def stored_weight_def)+

lemma exact_book:
  "(\<And>x. x \<in> set (nodes t) \<Longrightarrow> height (h' x) = height (h x) \<and> weight (h' x) = weight (h x)
        \<and> count (h' x) = count (h x))
     \<Longrightarrow> exact h' t = exact h t"
proof (induction t)
  case Tip
  show ?case by simp
next
  case (Fork l a r)
  have "exact h' l = exact h l" by (rule Fork.IH(1)) (simp add: Fork.prems)
  moreover have "exact h' r = exact h r" by (rule Fork.IH(2)) (simp add: Fork.prems)
  moreover have "stored_height h' l = stored_height h l" "stored_weight h' l = stored_weight h l"
    by (rule stored_book; simp add: Fork.prems)+
  moreover have "stored_height h' r = stored_height h r" "stored_weight h' r = stored_weight h r"
    by (rule stored_book; simp add: Fork.prems)+
  moreover have "height (h' a) = height (h a)" "weight (h' a) = weight (h a)"
    "count (h' a) = count (h a)" using Fork.prems by simp_all
  ultimately show ?case by simp
qed

lemma ctx_ok_book:
  "(\<And>x. height (h' x) = height (h x) \<and> weight (h' x) = weight (h x) \<and> count (h' x) = count (h x))
     \<Longrightarrow> ctx_ok h' g fs = ctx_ok h g fs"
proof (induction fs arbitrary: g)
  case Nil
  show ?case by simp
next
  case (Cons f fs)
  have e: "\<And>t. exact h' t = exact h t" by (rule exact_book) (simp add: Cons.prems)
  have c: "\<And>g. ctx_ok h' g fs = ctx_ok h g fs" by (rule Cons.IH) (simp add: Cons.prems)
  show ?case by (cases f) (simp_all add: e c Cons.prems)
qed

lemma splice_walk:
  assumes st: "avl_state s t" and sp: "splice_out s t k s1 node"
  shows "walk_ok s1 node"
proof -
  from sp obtain y c fs where
    t: "t = plug (Fork Tip y c) fs \<or> t = plug (Fork c y Tip) fs"
    and node: "node = hole_parent fs" and wf1: "wf_tree s1 (plug c fs)"
    and bk: "\<And>x. height (heap s1 x) = height (heap s x) \<and> weight (heap s1 x) = weight (heap s x)
        \<and> count (heap s1 x) = count (heap s x)"
    by (auto simp: splice_out_def)
  from st have av: "avl t" and ex: "exact (heap s) t" and hn: "heights_nonneg (heap s)"
    by (simp_all add: avl_state_def)
  have hn1: "heights_nonneg (heap s1)" using hn bk by (simp add: heights_nonneg_def)
  have eb: "\<And>u. exact (heap s1) u = exact (heap s) u" by (rule exact_book) (simp add: bk)
  have cb: "\<And>g gs. ctx_ok (heap s1) g gs = ctx_ok (heap s) g gs"
    by (rule ctx_ok_book) (simp add: bk)
  obtain old where old: "t = plug old fs" "old = Fork Tip y c \<or> old = Fork c y Tip"
    using t by auto
  from exact_avl_plug [of "heap s" old fs] ex av old(1) have
    eo: "exact (heap s) old" and ao: "avl old" and co: "ctx_ok (heap s) (ht old) fs"
    by simp_all
  have c: "avl c" "exact (heap s) c" using eo ao old(2) by auto
  have hc: "ht old = 1 + ht c" using old(2) ht_ge [of c] by auto
  have c0: "ht c \<le> 0" using ao old(2) by auto
  show ?thesis
  proof (cases fs)
    case Nil
    have "avl_state s1 c" using wf1 c hn1 eb Nil by (simp add: avl_state_def)
    moreover have "tree_update s1 None = Some (Inr s1)" by (subst tree_update.simps) simp
    ultimately show ?thesis using node Nil by (auto simp: walk_ok_def)
  next
    case (Cons f fs')
    show ?thesis
    proof (cases f)
      case (LeftOf n sib)
      from co Cons LeftOf have sib: "avl sib" "exact (heap s) sib" "\<bar>ht old - ht sib\<bar> \<le> 1"
        and hnn: "height (heap s n) = 1 + max (ht old) (ht sib)"
        and ck: "ctx_ok (heap s) (height (heap s n)) fs'" by auto
      have e: "edit_ok (ht c) (ht sib) (height (heap s n))"
        using sib(3) hnn hc by (simp add: edit_ok_def; arith)
      have "walk_ok s1 (Some n)"
      proof (rule walk_edit [of s1 c n sib fs' "height (heap s n)"])
        show "wf_tree s1 (plug (Fork c n sib) fs')" using wf1 Cons LeftOf by simp
        show "heights_nonneg (heap s1)" by (rule hn1)
        show "avl c" "avl sib" by (rule c(1), rule sib(1))
        show "exact (heap s1) c" "exact (heap s1) sib" using c(2) sib(2) eb by simp_all
        show "edit_ok (ht c) (ht sib) (height (heap s n))" by (rule e)
        show "ctx_ok (heap s1) (height (heap s n)) fs'" using ck cb by simp
      qed
      then show ?thesis using node Cons LeftOf by simp
    next
      case (RightOf sib n)
      from co Cons RightOf have sib: "avl sib" "exact (heap s) sib" "\<bar>ht old - ht sib\<bar> \<le> 1"
        and hnn: "height (heap s n) = 1 + max (ht old) (ht sib)"
        and ck: "ctx_ok (heap s) (height (heap s n)) fs'" by auto
      have e: "edit_ok (ht sib) (ht c) (height (heap s n))"
        using sib(3) hnn hc by (simp add: edit_ok_def; arith)
      have "walk_ok s1 (Some n)"
      proof (rule walk_edit [of s1 sib n c fs' "height (heap s n)"])
        show "wf_tree s1 (plug (Fork sib n c) fs')" using wf1 Cons RightOf by simp
        show "heights_nonneg (heap s1)" by (rule hn1)
        show "avl sib" "avl c" by (rule sib(1), rule c(1))
        show "exact (heap s1) c" "exact (heap s1) sib" using c(2) sib(2) eb by simp_all
        show "edit_ok (ht sib) (ht c) (height (heap s n))" by (rule e)
        show "ctx_ok (heap s1) (height (heap s n)) fs'" using ck cb by simp
      qed
      then show ?thesis using node Cons RightOf by simp
    qed
  qed
qed

section \<open>The invariant of the reachable states\<close>

lemma rep_unique:
  "rep h par t \<Longrightarrow> rep h par' t' \<Longrightarrow> top t = top t' \<Longrightarrow> t = t'"
proof (induction t arbitrary: par par' t')
  case Tip
  then show ?case by (cases t') simp_all
next
  case (Fork l a r)
  then obtain l' r' where t': "t' = Fork l' a r'" by (cases t') auto
  from Fork.prems t' have "top l = top l'" "top r = top r'"
    "rep h (Some a) l" "rep h (Some a) l'" "rep h (Some a) r" "rep h (Some a) r'" by auto
  then have "l = l'" "r = r'" using Fork.IH by blast+
  with t' show ?case by simp
qed

lemma wf_tree_unique: "wf_tree s t \<Longrightarrow> wf_tree s t' \<Longrightarrow> t = t'"
  using rep_unique [of "heap s" None t None t'] by (simp add: wf_tree_def)

lemma avl_state_empty: "avl_state empty_tree Tip"
  by (simp add: avl_state_def wf_tree_def empty_tree_def keys_of_def heights_nonneg_def
      create_node_def)

lemma reachable_avl_state: "reachable s \<Longrightarrow> \<exists>t. avl_state s t"
proof (induction rule: reachable.induct)
  case start
  show ?case using avl_state_empty by blast
next
  case (insert s t a k s')
  then obtain t0 where t0: "avl_state s t0" by blast
  then have "t0 = t" using wf_tree_unique [OF _ insert.hyps(2), of t0] by (simp add: avl_state_def)
  with t0 insert_key_avl [of s t a k] insert.hyps show ?case by auto
next
  case (delete s t k s1 node s')
  then obtain t0 where t0: "avl_state s t0" by blast
  then have "t0 = t" using wf_tree_unique [OF _ delete.hyps(2), of t0] by (simp add: avl_state_def)
  with t0 splice_walk [of s t k s1 node] delete.hyps show ?case by (auto simp: walk_ok_def)
qed

lemma exact_stored_weight: "exact h t \<Longrightarrow> stored_weight h t = total_count h t"
proof (induction t)
  case Tip
  show ?case by (simp add: stored_weight_def)
next
  case (Fork l a r)
  then show ?case by (simp add: stored_weight_def)
qed

lemma one_key_tree_fields:
  "root one_key_tree = Some 0"
  "heap one_key_tree 0 =
     \<lparr>key = 10, left = None, right = None, parent = None, count = 1, weight = 1, height = 0\<rparr>"
  by code_simp+

lemma insert_one_key: "insert_key empty_tree 0 10 = Some (Inr one_key_tree)"
proof -
  from insert_key_avl [OF avl_state_empty, of 0 10] obtain s' where
    "insert_key empty_tree 0 10 = Some (Inr s')" by (auto simp: keys_of_def)
  then show ?thesis by (simp add: one_key_tree_def)
qed

lemma reachable_one_key_tree: "reachable one_key_tree"
proof (rule reachable.insert [OF reachable.start _ _ _ insert_one_key])
  show "wf_tree empty_tree Tip" using avl_state_empty by (simp add: avl_state_def)
  show "0 \<notin> set (nodes Tip)" by simp
  show "10 \<notin> set (keys_of (heap empty_tree) Tip)" by (simp add: keys_of_def)
qed

lemma wf_one_key_tree: "wf_tree one_key_tree (Fork Tip 0 Tip)"
  by (simp add: wf_tree_def one_key_tree_fields keys_of_def)

section \<open>A tree grown by four inserts and cut by a delete\<close>

lemma insert_keys_snoc:
  "insert_keys s xs = Some (Inr s1) \<Longrightarrow> insert_keys s (xs @ [(a, k)]) = insert_key s1 a k"
proof (induction xs arbitrary: s)
  case Nil
  then show ?case by (simp split: option.split sum.split)
next
  case (Cons x xs)
  obtain b j where x: "x = (b, j)" by (cases x)
  from Cons.prems x obtain s0 where s0: "insert_key s b j = Some (Inr s0)"
    and r: "insert_keys s0 xs = Some (Inr s1)"
    by (auto split: option.splits sum.splits)
  from Cons.IH [OF r] s0 x show ?case by simp
qed

lemma grown_step:
  assumes g: "insert_keys empty_tree xs = Some (Inr (grown xs)) \<and> reachable (grown xs)"
    and w: "wf_tree (grown xs) t \<and> a \<notin> set (nodes t)
      \<and> k \<notin> set (keys_of (heap (grown xs)) t)"
  shows "insert_keys empty_tree (xs @ [(a, k)]) = Some (Inr (grown (xs @ [(a, k)])))
    \<and> reachable (grown (xs @ [(a, k)]))"
proof -
  from g have i: "insert_keys empty_tree xs = Some (Inr (grown xs))"
    and r: "reachable (grown xs)" by simp_all
  from w have wf: "wf_tree (grown xs) t" and a: "a \<notin> set (nodes t)"
    and k: "k \<notin> set (keys_of (heap (grown xs)) t)" by simp_all
  from reachable_avl_state [OF r] obtain t0 where t0: "avl_state (grown xs) t0" by blast
  then have "wf_tree (grown xs) t0" by (simp add: avl_state_def)
  from wf_tree_unique [OF this wf] t0 have st: "avl_state (grown xs) t" by simp
  from insert_key_avl [OF st a k] obtain s' where
    s': "insert_key (grown xs) a k = Some (Inr s')" by blast
  from insert_keys_snoc [OF i, of a k] s'
  have e: "insert_keys empty_tree (xs @ [(a, k)]) = Some (Inr s')" by simp
  then have "grown (xs @ [(a, k)]) = s'" by (simp add: grown_def)
  with e reachable.insert [OF r wf a k s'] show ?thesis by simp
qed

lemma grown_none:
  "insert_keys empty_tree [] = Some (Inr (grown [])) \<and> reachable (grown [])"
  by (simp add: grown_def reachable.start)

lemma grown_one:
  "insert_keys empty_tree [(0, 10)] = Some (Inr (grown [(0, 10)]))
   \<and> reachable (grown [(0, 10)])"
proof -
  have "wf_tree (grown []) Tip \<and> 0 \<notin> set (nodes Tip)
      \<and> 10 \<notin> set (keys_of (heap (grown [])) Tip)" by code_simp
  from grown_step [OF grown_none this] show ?thesis by simp
qed

lemma grown_two:
  "insert_keys empty_tree [(0, 10), (1, 20)] = Some (Inr (grown [(0, 10), (1, 20)]))
   \<and> reachable (grown [(0, 10), (1, 20)])"
proof -
  have "wf_tree (grown [(0, 10)]) (Fork Tip 0 Tip) \<and> 1 \<notin> set (nodes (Fork Tip 0 Tip))
      \<and> 20 \<notin> set (keys_of (heap (grown [(0, 10)])) (Fork Tip 0 Tip))" by code_simp
  from grown_step [OF grown_one this] show ?thesis by simp
qed

lemma grown_three:
  "insert_keys empty_tree [(0, 10), (1, 20), (2, 30)]
     = Some (Inr (grown [(0, 10), (1, 20), (2, 30)]))
   \<and> reachable (grown [(0, 10), (1, 20), (2, 30)])"
proof -
  have "wf_tree (grown [(0, 10), (1, 20)]) (Fork Tip 0 (Fork Tip 1 Tip))
      \<and> 2 \<notin> set (nodes (Fork Tip 0 (Fork Tip 1 Tip)))
      \<and> 30 \<notin> set (keys_of (heap (grown [(0, 10), (1, 20)])) (Fork Tip 0 (Fork Tip 1 Tip)))"
    by code_simp
  from grown_step [OF grown_two this] show ?thesis by simp
qed

lemma reachable_four_key_tree: "reachable four_key_tree"
proof -
  have "wf_tree (grown [(0, 10), (1, 20), (2, 30)]) (Fork (Fork Tip 0 Tip) 1 (Fork Tip 2 Tip))
      \<and> 3 \<notin> set (nodes (Fork (Fork Tip 0 Tip) 1 (Fork Tip 2 Tip)))
      \<and> 40 \<notin> set (keys_of (heap (grown [(0, 10), (1, 20), (2, 30)]))
                      (Fork (Fork Tip 0 Tip) 1 (Fork Tip 2 Tip)))"
    by code_simp
  from grown_step [OF grown_three this] show ?thesis by (simp add: four_key_tree_def)
qed

lemma wf_four_key_tree:
  "wf_tree four_key_tree (Fork (Fork Tip 0 Tip) 1 (Fork Tip 2 (Fork Tip 3 Tip)))"
  by code_simp

lemma keys_four_key_tree:
  "keys_of (heap four_key_tree) (Fork (Fork Tip 0 Tip) 1 (Fork Tip 2 (Fork Tip 3 Tip)))
   = [10, 20, 30, 40]"
  by code_simp

lemma wf_spliced_tree: "wf_tree spliced_tree (Fork Tip 1 (Fork Tip 2 (Fork Tip 3 Tip)))"
  by code_simp

lemma keys_spliced_tree:
  "keys_of (heap spliced_tree) (Fork Tip 1 (Fork Tip 2 (Fork Tip 3 Tip))) = [20, 30, 40]"
  by code_simp

lemma splice_four_key_tree:
  "splice_out four_key_tree (Fork (Fork Tip 0 Tip) 1 (Fork Tip 2 (Fork Tip 3 Tip))) 10
     spliced_tree (Some 1)"
proof -
  have b: "\<forall>x. height (heap spliced_tree x) = height (heap four_key_tree x)
      \<and> weight (heap spliced_tree x) = weight (heap four_key_tree x)
      \<and> count (heap spliced_tree x) = count (heap four_key_tree x)"
    by (simp add: spliced_tree_def)
  show ?thesis
    unfolding splice_out_def
    by (intro exI [of _ 0] exI [of _ Tip] exI [of _ "[LeftOf 1 (Fork Tip 2 (Fork Tip 3 Tip))]"])
       (simp del: One_nat_def add: wf_spliced_tree keys_four_key_tree keys_spliced_tree b)
qed

lemma walk_spliced_tree: "tree_update spliced_tree (Some 1) = Some (Inr after_delete)"
proof -
  from reachable_avl_state [OF reachable_four_key_tree] obtain t0 where
    t0: "avl_state four_key_tree t0" by blast
  then have "wf_tree four_key_tree t0" by (simp add: avl_state_def)
  from wf_tree_unique [OF this wf_four_key_tree] t0
  have "avl_state four_key_tree (Fork (Fork Tip 0 Tip) 1 (Fork Tip 2 (Fork Tip 3 Tip)))"
    by simp
  from splice_walk [OF this splice_four_key_tree] obtain s' where
    "tree_update spliced_tree (Some 1) = Some (Inr s')" by (auto simp: walk_ok_def)
  then show ?thesis by (simp add: after_delete_def)
qed

lemma reachable_after_delete: "reachable after_delete"
  by (rule reachable.delete
      [OF reachable_four_key_tree wf_four_key_tree splice_four_key_tree walk_spliced_tree])

lemma wf_after_delete: "wf_tree after_delete (Fork (Fork Tip 1 Tip) 2 (Fork Tip 3 Tip))"
  by code_simp

lemma after_delete_fields:
  "root after_delete = Some 2"
  "count (heap after_delete 1) = 1"
  "count (heap after_delete 2) = 1"
  "count (heap after_delete 3) = 1"
  by code_simp+

section \<open>The tree is balanced after every operation\<close>

text \<open>
  What holds of every tree that a sequence of insert and delete operations builds from
  the empty tree, after each operation: every node of the tree satisfies
  \<open>|left_height - right_height| \<le> 1\<close>; \<^verbatim>\<open>is_balanced()\<close> returns true when the
  tree is not empty; and the next operation completes, the insert of a new key as well
  as the walk after a splice-out.
\<close>

lemma reachable_balanced:
  assumes "reachable s"
  shows "\<exists>t. wf_tree s t
    \<and> (\<forall>a \<in> set (nodes t). \<bar>left_height (heap s) a - right_height (heap s) a\<bar> \<le> 1)
    \<and> (root s \<noteq> None \<longrightarrow> is_balanced s None = Some (Inr True))
    \<and> (\<forall>a k. a \<notin> set (nodes t) \<longrightarrow> k \<notin> set (keys_of (heap s) t)
          \<longrightarrow> (\<exists>s'. insert_key s a k = Some (Inr s') \<and> reachable s'))
    \<and> (\<forall>k s1 node. splice_out s t k s1 node
          \<longrightarrow> (\<exists>s'. tree_update s1 node = Some (Inr s') \<and> reachable s'))"
proof -
  from reachable_avl_state [OF assms] obtain t where st: "avl_state s t" by blast
  then have wf: "wf_tree s t" and R: "rep (heap s) None t" and ex: "exact (heap s) t"
    and av: "avl t" by (simp_all add: avl_state_def wf_tree_def)
  have nh: "\<forall>a \<in> set (nodes t). \<bar>left_height (heap s) a - right_height (heap s) a\<bar> \<le> 1"
    using not_heavy_nodes [OF R ex av] by (auto simp: is_heavy_def not_less)
  have ib: "root s \<noteq> None \<longrightarrow> is_balanced s None = Some (Inr True)"
    using avl_state_is_balanced [OF st] by simp
  have ins: "\<forall>a k. a \<notin> set (nodes t) \<longrightarrow> k \<notin> set (keys_of (heap s) t)
      \<longrightarrow> (\<exists>s'. insert_key s a k = Some (Inr s') \<and> reachable s')"
  proof (intro allI impI)
    fix a k
    assume a: "a \<notin> set (nodes t)" and k: "k \<notin> set (keys_of (heap s) t)"
    from insert_key_avl [OF st a k] obtain s' where s': "insert_key s a k = Some (Inr s')"
      by blast
    from reachable.insert [OF assms wf a k s'] s'
    show "\<exists>s'. insert_key s a k = Some (Inr s') \<and> reachable s'" by blast
  qed
  have del: "\<forall>k s1 node. splice_out s t k s1 node
      \<longrightarrow> (\<exists>s'. tree_update s1 node = Some (Inr s') \<and> reachable s')"
  proof (intro allI impI)
    fix k s1 node
    assume sp: "splice_out s t k s1 node"
    from splice_walk [OF st sp] obtain s' where s': "tree_update s1 node = Some (Inr s')"
      by (auto simp: walk_ok_def)
    from reachable.delete [OF assms wf sp s'] s'
    show "\<exists>s'. tree_update s1 node = Some (Inr s') \<and> reachable s'" by blast
  qed
  from wf nh ib ins del show ?thesis by blast
qed

text \<open>
  So it is on the tree of 20, 30, 40 that four inserts and the delete of 10 leave, where
  the insert of 30 and the delete of 10 each rotate.
\<close>

lemma reachable_balanced_after_delete:
  "reachable after_delete \<and> root after_delete = Some 2
   \<and> \<bar>left_height (heap after_delete) 1 - right_height (heap after_delete) 1\<bar> \<le> 1
   \<and> \<bar>left_height (heap after_delete) 2 - right_height (heap after_delete) 2\<bar> \<le> 1
   \<and> \<bar>left_height (heap after_delete) 3 - right_height (heap after_delete) 3\<bar> \<le> 1
   \<and> is_balanced after_delete None = Some (Inr True)"
proof -
  from reachable_balanced [OF reachable_after_delete] obtain t where
    t: "wf_tree after_delete t"
      "\<forall>a \<in> set (nodes t). \<bar>left_height (heap after_delete) a - right_height (heap after_delete) a\<bar> \<le> 1"
      "root after_delete \<noteq> None \<longrightarrow> is_balanced after_delete None = Some (Inr True)"
    by blast
  have "t = Fork (Fork Tip 1 Tip) 2 (Fork Tip 3 Tip)"
    by (rule wf_tree_unique [OF t(1) wf_after_delete])
  with t(2,3) reachable_after_delete show ?thesis by (simp add: after_delete_fields)
qed

text \<open>
  Claim C1. For every sequence of insert and delete operations, after each operation
  \<^verbatim>\<open>is_balanced(root)\<close> is to return true. The insert of the key 10 into the empty tree
  followed by the delete of 10 is such a sequence: the splice takes the only node out,
  the root is absent, the walk starts at no node. On the tree it leaves,
  \<^verbatim>\<open>is_balanced()\<close> does not return true: it raises \<^verbatim>\<open>AttributeError\<close>.
\<close>

theorem is_balanced_raises_after_insert_delete:
  "reachable (one_key_tree\<lparr>root := None\<rparr>)
   \<and> is_balanced (one_key_tree\<lparr>root := None\<rparr>) None = Some (Inl AttributeError)"
proof -
  let ?e = "one_key_tree\<lparr>root := None\<rparr>"
  have sp: "splice_out one_key_tree (Fork Tip 0 Tip) 10 ?e None"
    unfolding splice_out_def
    by (intro exI [of _ 0] exI [of _ Tip] exI [of _ "[]"])
       (simp add: wf_tree_def keys_of_def one_key_tree_fields)
  have up: "tree_update ?e None = Some (Inr ?e)" by (subst tree_update.simps) simp
  have "reachable ?e"
    by (rule reachable.delete [OF reachable_one_key_tree wf_one_key_tree sp up])
  moreover have "is_balanced ?e None = Some (Inl AttributeError)"
    by (subst is_balanced.simps) simp
  ultimately show ?thesis by simp
qed

section \<open>The bookkeeping is exact after every operation\<close>

text \<open>
  Claim C4. After every operation completes, every node reachable from the root stores
  \<open>height = 1 + max(left_height, right_height)\<close>, an absent child contributing
  \<open>-1\<close>, and \<open>weight = count + left.weight + right.weight\<close>, an absent child
  contributing 0; and recomputed from the shape of the tree, the stored height of every
  node is the height of its subtree and its stored weight the total count of its subtree.
\<close>

theorem bookkeeping_exact_after_every_operation:
  assumes "reachable s"
  shows "\<exists>t. wf_tree s t
    \<and> (\<forall>a \<in> set (nodes t).
          height (heap s a) = 1 + max (left_height (heap s) a) (right_height (heap s) a)
          \<and> weight (heap s a) = count (heap s a) + left_weight (heap s) a + right_weight (heap s) a)
    \<and> (\<forall>l a r fs. t = plug (Fork l a r) fs
          \<longrightarrow> height (heap s a) = ht (Fork l a r)
            \<and> weight (heap s a) = total_count (heap s) (Fork l a r))"
proof -
  from reachable_avl_state [OF assms] obtain t where st: "avl_state s t" by blast
  then have wf: "wf_tree s t" and R: "rep (heap s) None t" and ex: "exact (heap s) t"
    and av: "avl t" by (simp_all add: avl_state_def wf_tree_def)
  have loc: "\<forall>a \<in> set (nodes t).
      height (heap s a) = 1 + max (left_height (heap s) a) (right_height (heap s) a)
      \<and> weight (heap s a) = count (heap s a) + left_weight (heap s) a + right_weight (heap s) a"
    using exact_imp_exact_at [OF R ex] by (auto simp: exact_at_def)
  have glob: "\<forall>l a r fs. t = plug (Fork l a r) fs
      \<longrightarrow> height (heap s a) = ht (Fork l a r)
        \<and> weight (heap s a) = total_count (heap s) (Fork l a r)"
  proof (intro allI impI)
    fix l a r fs
    assume t: "t = plug (Fork l a r) fs"
    from exact_avl_plug [of "heap s" "Fork l a r" fs] ex av t
    have e: "exact (heap s) (Fork l a r)" by simp
    from exact_stored_height [OF e] exact_stored_weight [OF e]
    show "height (heap s a) = ht (Fork l a r)
        \<and> weight (heap s a) = total_count (heap s) (Fork l a r)"
      by (simp add: stored_height_def stored_weight_def)
  qed
  from wf loc glob show ?thesis by blast
qed

theorem bookkeeping_exact_after_every_operation_witness:
  "reachable after_delete
   \<and> wf_tree after_delete (Fork (Fork Tip 1 Tip) 2 (Fork Tip 3 Tip))
   \<and> height (heap after_delete 2)
       = 1 + max (left_height (heap after_delete) 2) (right_height (heap after_delete) 2)
   \<and> weight (heap after_delete 2)
       = count (heap after_delete 2) + left_weight (heap after_delete) 2
         + right_weight (heap after_delete) 2
   \<and> height (heap after_delete 1)
       = 1 + max (left_height (heap after_delete) 1) (right_height (heap after_delete) 1)
   \<and> weight (heap after_delete 1)
       = count (heap after_delete 1) + left_weight (heap after_delete) 1
         + right_weight (heap after_delete) 1
   \<and> height (heap after_delete 2) = ht (Fork (Fork Tip 1 Tip) 2 (Fork Tip 3 Tip))
   \<and> weight (heap after_delete 2)
       = total_count (heap after_delete) (Fork (Fork Tip 1 Tip) 2 (Fork Tip 3 Tip))
   \<and> height (heap after_delete 2) = 1 \<and> weight (heap after_delete 2) = 3
   \<and> height (heap after_delete 1) = 0 \<and> weight (heap after_delete 1) = 1"
proof -
  let ?t = "Fork (Fork Tip 1 Tip) 2 (Fork Tip 3 Tip)"
  from bookkeeping_exact_after_every_operation [OF reachable_after_delete] obtain t where
    t: "wf_tree after_delete t"
      "\<forall>a \<in> set (nodes t).
          height (heap after_delete a)
            = 1 + max (left_height (heap after_delete) a) (right_height (heap after_delete) a)
          \<and> weight (heap after_delete a)
            = count (heap after_delete a) + left_weight (heap after_delete) a
              + right_weight (heap after_delete) a"
      "\<forall>l a r fs. t = plug (Fork l a r) fs
          \<longrightarrow> height (heap after_delete a) = ht (Fork l a r)
            \<and> weight (heap after_delete a) = total_count (heap after_delete) (Fork l a r)"
    by blast
  have eq: "t = ?t" by (rule wf_tree_unique [OF t(1) wf_after_delete])
  have loc: "\<forall>a \<in> {1, 2, 3}.
          height (heap after_delete a)
            = 1 + max (left_height (heap after_delete) a) (right_height (heap after_delete) a)
          \<and> weight (heap after_delete a)
            = count (heap after_delete a) + left_weight (heap after_delete) a
              + right_weight (heap after_delete) a"
    using t(2) eq by simp
  have e2: "t = plug ?t []" using eq by simp
  have e1: "t = plug (Fork Tip 1 Tip) [LeftOf 2 (Fork Tip 3 Tip)]" using eq by simp
  from t(3) [rule_format, OF e2]
  have g2: "height (heap after_delete 2) = ht ?t"
    "weight (heap after_delete 2) = total_count (heap after_delete) ?t" by simp_all
  from t(3) [rule_format, OF e1]
  have g1: "height (heap after_delete 1) = ht (Fork Tip 1 Tip)"
    "weight (heap after_delete 1) = total_count (heap after_delete) (Fork Tip 1 Tip)"
    by simp_all
  have n2: "height (heap after_delete 2) = 1 \<and> weight (heap after_delete 2) = 3"
    using g2 by (simp del: One_nat_def add: after_delete_fields)
  have n1: "height (heap after_delete 1) = 0 \<and> weight (heap after_delete 1) = 1"
    using g1 by (simp del: One_nat_def add: after_delete_fields)
  from reachable_after_delete wf_after_delete loc g2 n2 n1 show ?thesis by simp
qed


section \<open>is_balanced on the empty tree\<close>

text \<open>
  Claim C10. Calling \<^verbatim>\<open>is_balanced()\<close> with no argument on a tree whose root is absent
  does not return a boolean: the fallback assigns the absent root to \<^verbatim>\<open>node\<close> and
  \<^verbatim>\<open>node.is_heavy()\<close> then raises \<^verbatim>\<open>AttributeError\<close>.
\<close>

theorem is_balanced_empty_fails:
  "root s = None \<Longrightarrow> is_balanced s None = Some (Inl AttributeError)"
  by (simp add: is_balanced.simps)

theorem is_balanced_empty_fails_witness:
  "root empty_tree = None \<and> is_balanced empty_tree None = Some (Inl AttributeError)"
  using is_balanced_empty_fails [of empty_tree] by (simp add: empty_tree_def)

end
